theory Spec2Isabelle
  imports Main "HOL-Library.Multiset" "HOL-Library.List_Lexorder"
begin

section \<open>Data model of shavian\_pangram.py\<close>

text \<open>
  A Python \<open>str\<close> is a sequence of Unicode code points. A letter is modelled by its
  code point, so that the default alphabet \<open>range(0x10450, 0x10480)\<close> can be written
  down; a word, a part-of-speech tag and a formatted word-slot are all of type \<open>str\<close>.
  \<open>ustr\<close> turns an ASCII literal into such a string.
\<close>

type_synonym letter = nat

type_synonym str = "letter list"

definition ustr :: "string \<Rightarrow> str" where
  "ustr s = map of_char s"

subsection \<open>collections.Counter\<close>

text \<open>
  A \<open>Counter\<close> is a dict in insertion order from keys to ints. Reading a missing key
  gives 0 and does not insert it; \<open>c[k] += d\<close> updates the entry in place, or appends
  it when the key is new.
\<close>

type_synonym counter = "(letter \<times> int) list"

fun counter_get :: "counter \<Rightarrow> letter \<Rightarrow> int" where
  "counter_get [] k = 0"
| "counter_get ((k', v) # c) k = (if k' = k then v else counter_get c k)"

fun counter_add :: "counter \<Rightarrow> letter \<Rightarrow> int \<Rightarrow> counter" where
  "counter_add [] k d = [(k, d)]"
| "counter_add ((k', v) # c) k d =
     (if k' = k then (k', v + d) # c else (k', v) # counter_add c k d)"

text \<open>\<open>Counter.update(iterable)\<close> and \<open>Counter(iterable)\<close>: one increment per element.\<close>

fun counter_update :: "counter \<Rightarrow> letter list \<Rightarrow> counter" where
  "counter_update c [] = c"
| "counter_update c (x # xs) = counter_update (counter_add c x 1) xs"

definition Counter :: "letter list \<Rightarrow> counter" where
  "Counter xs = counter_update [] xs"

text \<open>
  \<open>most_common()\<close> is \<open>sorted(self.items(), key=itemgetter(1), reverse=True)\<close>:
  descending by count, and stable, so equal counts keep their insertion order.
\<close>

definition most_common :: "counter \<Rightarrow> (letter \<times> int) list" where
  "most_common c = sort_key (\<lambda>item. - snd item) c"

text \<open>\<open>any(c.values())\<close> and \<open>sum(c.values())\<close>.\<close>

definition any_values :: "counter \<Rightarrow> bool" where
  "any_values c = list_ex (\<lambda>v. v \<noteq> 0) (map snd c)"

definition sum_values :: "counter \<Rightarrow> int" where
  "sum_values c = sum_list (map snd c)"

subsection \<open>TrieNode and the solver object\<close>

text \<open>
  \<open>children\<close> is a dict in insertion order, an association list here; \<open>key\<close> is
  \<open>None\<close> until a key ends at the node.
\<close>

datatype TrieNode = TrieNode (children: "(letter \<times> TrieNode) list") (is_word: bool) (key: "str option")

text \<open>
  The fields of \<open>PangramSolver\<close> that the search reads. \<open>shaw_to_pos\<close> maps a word
  to its set of tags, \<open>key_to_words\<close> maps a key to the sorted list of its words (a dict
  in insertion order).
\<close>

record solver =
  shaw_words :: "str list"
  shaw_to_pos :: "str \<rightharpoonup> str set"
  trie :: TrieNode
  letter_order :: "letter list"
  key_to_words :: "(str \<times> str list) list"

section \<open>load\_words and the constructor\<close>

text \<open>
  The lexicon file holds a JSON object from arbitrary keys to lists of entries; an entry
  is an object whose fields \<open>Shaw\<close> and \<open>pos\<close> may each be absent. \<open>open\<close> raises
  OSError on a file that cannot be read and \<open>json.load\<close> raises JSONDecodeError on text
  that is not JSON; neither is caught, so the constructor fails with it.
\<close>

record entry =
  Shaw :: "str option"
  pos :: "str option"

datatype source = Unreadable | NotJson | Json "(str \<times> entry list) list"

datatype load_error = OSError | JSONDecodeError

text \<open>
  The body of the inner loop: \<open>entry.get('Shaw', '')\<close>, \<open>entry.get('pos', '')\<close>, and
  the word is taken only when it is non-empty.
\<close>

definition load_entry :: "entry \<Rightarrow> str list \<times> (str \<rightharpoonup> str set) \<Rightarrow> str list \<times> (str \<rightharpoonup> str set)" where
  "load_entry e acc =
     (let shaw = (case Shaw e of None \<Rightarrow> [] | Some w \<Rightarrow> w);
          p = (case pos e of None \<Rightarrow> [] | Some t \<Rightarrow> t);
          ws = fst acc; stp = snd acc
      in if shaw \<noteq> [] then
           (let stp1 = (if stp shaw = None then stp(shaw \<mapsto> {}) else stp);
                stp2 = (if p \<noteq> [] then stp1(shaw \<mapsto> insert p (case stp1 shaw of None \<Rightarrow> {} | Some tags \<Rightarrow> tags))
                        else stp1)
            in (ws @ [shaw], stp2))
         else acc)"

fun load_entries :: "entry list \<Rightarrow> str list \<times> (str \<rightharpoonup> str set) \<Rightarrow> str list \<times> (str \<rightharpoonup> str set)" where
  "load_entries [] acc = acc"
| "load_entries (e # es) acc = load_entries es (load_entry e acc)"

fun load_items :: "(str \<times> entry list) list \<Rightarrow> str list \<times> (str \<rightharpoonup> str set) \<Rightarrow> str list \<times> (str \<rightharpoonup> str set)" where
  "load_items [] acc = acc"
| "load_items ((k, entries) # items) acc = load_items items (load_entries entries acc)"

definition load_words :: "source \<Rightarrow> load_error + str list \<times> (str \<rightharpoonup> str set)" where
  "load_words src =
     (case src of
        Unreadable \<Rightarrow> Inl OSError
      | NotJson \<Rightarrow> Inl JSONDecodeError
      | Json data \<Rightarrow> Inr (load_items data ([], Map.empty)))"

text \<open>\<open>PangramSolver.__init__\<close>.\<close>

definition PangramSolver :: "source \<Rightarrow> load_error + solver" where
  "PangramSolver src =
     (case load_words src of
        Inl e \<Rightarrow> Inl e
      | Inr (ws, stp) \<Rightarrow>
          Inr \<lparr>shaw_words = ws, shaw_to_pos = stp, trie = TrieNode [] False None,
               letter_order = [], key_to_words = []\<rparr>)"

text \<open>\<open>entry_word\<close> is \<open>entry.get('Shaw', '')\<close>, the word that \<open>load_entry\<close> reads.\<close>

definition entry_word :: "entry \<Rightarrow> str" where
  "entry_word e = (case Shaw e of None \<Rightarrow> [] | Some w \<Rightarrow> w)"

section \<open>build\_trie\<close>

text \<open>
  \<open>letter_order.index(c) if c in letter_order else len(letter_order)\<close>, the sort key
  used for anagram keys and for the children of a node. \<open>list.index\<close> is only called
  on a member, so its ValueError cannot occur.
\<close>

fun index_of :: "letter list \<Rightarrow> letter \<Rightarrow> nat" where
  "index_of [] x = 0"
| "index_of (y # ys) x = (if y = x then 0 else Suc (index_of ys x))"

definition rank :: "letter list \<Rightarrow> letter \<Rightarrow> nat" where
  "rank lo c = (if c \<in> set lo then index_of lo c else length lo)"

text \<open>
  Step 1, the loop over \<open>self.shaw_words\<close>: a word is skipped when it is excluded,
  when \<open>exclude_pos\<close> is non-empty and meets the word's tags, or when it uses a letter
  outside the target set; otherwise it is appended to \<open>filtered_words\<close> and its letters
  are counted.
\<close>

fun scan_words ::
  "(str \<rightharpoonup> str set) \<Rightarrow> letter set \<Rightarrow> str set \<Rightarrow> str set \<Rightarrow> str list \<Rightarrow>
   counter \<times> str list \<Rightarrow> counter \<times> str list" where
  "scan_words stp target_letters exclude_words exclude_pos [] acc = acc"
| "scan_words stp target_letters exclude_words exclude_pos (shaw # rest) (letter_counts, filtered_words) =
     (if shaw \<in> exclude_words then
        scan_words stp target_letters exclude_words exclude_pos rest (letter_counts, filtered_words)
      else if exclude_pos \<noteq> {} \<and> (case stp shaw of None \<Rightarrow> {} | Some tags \<Rightarrow> tags) \<inter> exclude_pos \<noteq> {} then
        scan_words stp target_letters exclude_words exclude_pos rest (letter_counts, filtered_words)
      else if set shaw \<subseteq> target_letters then
        scan_words stp target_letters exclude_words exclude_pos rest
          (counter_update letter_counts shaw, filtered_words @ [shaw])
      else
        scan_words stp target_letters exclude_words exclude_pos rest (letter_counts, filtered_words))"

text \<open>Step 2: \<open>most_common()\<close>, the letters only, reversed.\<close>

definition make_letter_order :: "counter \<Rightarrow> letter list" where
  "make_letter_order letter_counts = rev (map fst (most_common letter_counts))"

text \<open>Step 3: the key of a word (Python's \<open>sorted\<close> is stable), and the grouping.\<close>

definition word_key :: "letter list \<Rightarrow> str \<Rightarrow> str" where
  "word_key lo shaw = sort_key (rank lo) shaw"

fun add_to_group :: "(str \<times> str list) list \<Rightarrow> str \<Rightarrow> str \<Rightarrow> (str \<times> str list) list" where
  "add_to_group [] k shaw = [(k, [shaw])]"
| "add_to_group ((k', ws) # kts) k shaw =
     (if k' = k then (k', if shaw \<in> set ws then ws else ws @ [shaw]) # kts
      else (k', ws) # add_to_group kts k shaw)"

fun group_words :: "letter list \<Rightarrow> (str \<times> str list) list \<Rightarrow> str list \<Rightarrow> (str \<times> str list) list" where
  "group_words lo kts [] = kts"
| "group_words lo kts (shaw # rest) = group_words lo (add_to_group kts (word_key lo shaw) shaw) rest"

definition sorted_groups :: "(str \<times> str list) list \<Rightarrow> (str \<times> str list) list" where
  "sorted_groups kts = map (\<lambda>(k, ws). (k, sort ws)) kts"

text \<open>Step 4: \<open>_add_key_to_trie\<close> walks down from the node, creating children on demand.\<close>

fun add_key :: "TrieNode \<Rightarrow> letter list \<Rightarrow> str \<Rightarrow> TrieNode" where
  "add_key node [] k = TrieNode (children node) True (Some k)"
| "add_key node (l # ls) k =
     (case map_of (children node) l of
        None \<Rightarrow> TrieNode (children node @ [(l, add_key (TrieNode [] False None) ls k)]) (is_word node) (key node)
      | Some child \<Rightarrow>
          TrieNode (map (\<lambda>(l', c). if l' = l then (l', add_key c ls k) else (l', c)) (children node))
            (is_word node) (key node))"

definition add_key_to_trie :: "TrieNode \<Rightarrow> str \<Rightarrow> TrieNode" where
  "add_key_to_trie root k = add_key root k k"

fun add_keys :: "TrieNode \<Rightarrow> str list \<Rightarrow> TrieNode" where
  "add_keys root [] = root"
| "add_keys root (k # ks) = add_keys (add_key_to_trie root k) ks"

text \<open>Step 5: \<open>_sort_trie_children\<close>.\<close>

fun sort_trie_children :: "letter list \<Rightarrow> TrieNode \<Rightarrow> TrieNode" where
  "sort_trie_children lo (TrieNode cs w k) =
     (if cs = [] then TrieNode cs w k
      else TrieNode (map (\<lambda>(l, c). (l, sort_trie_children lo c))
                      (sort_key (\<lambda>item. rank lo (fst item)) cs)) w k)"

definition build_trie :: "solver \<Rightarrow> letter set \<Rightarrow> str set option \<Rightarrow> str set option \<Rightarrow> solver" where
  "build_trie s target_letters exclude_words exclude_pos =
     (let ew = (case exclude_words of None \<Rightarrow> {} | Some e \<Rightarrow> e);
          ep = (case exclude_pos of None \<Rightarrow> {} | Some e \<Rightarrow> e);
          (letter_counts, filtered_words) =
             scan_words (shaw_to_pos s) target_letters ew ep (shaw_words s) ([], []);
          lo = make_letter_order letter_counts;
          ktw = sorted_groups (group_words lo [] filtered_words);
          root = add_keys (TrieNode [] False None) (map fst ktw)
      in s\<lparr>trie := sort_trie_children lo root, letter_order := lo, key_to_words := ktw\<rparr>)"

text \<open>
  For the statements: \<open>filtered_words\<close> is the list \<open>filtered_words\<close> of \<open>build_trie\<close>
  after step 1, and \<open>keep_word\<close> collects the three tests of its loop.
\<close>

definition keep_word :: "(str \<rightharpoonup> str set) \<Rightarrow> letter set \<Rightarrow> str set \<Rightarrow> str set \<Rightarrow> str \<Rightarrow> bool" where
  "keep_word stp target_letters exclude_words exclude_pos shaw =
     (shaw \<notin> exclude_words \<and>
      \<not> (exclude_pos \<noteq> {} \<and> (case stp shaw of None \<Rightarrow> {} | Some tags \<Rightarrow> tags) \<inter> exclude_pos \<noteq> {}) \<and>
      set shaw \<subseteq> target_letters)"

definition filtered_words :: "solver \<Rightarrow> letter set \<Rightarrow> str set option \<Rightarrow> str set option \<Rightarrow> str list" where
  "filtered_words s target_letters exclude_words exclude_pos =
     snd (scan_words (shaw_to_pos s) target_letters
            (case exclude_words of None \<Rightarrow> {} | Some e \<Rightarrow> e)
            (case exclude_pos of None \<Rightarrow> {} | Some e \<Rightarrow> e) (shaw_words s) ([], []))"

section \<open>The search\<close>

text \<open>
  The state that the search functions share and mutate: the counter \<open>remaining\<close>, the
  list \<open>current_words\<close>, the list \<open>solutions\<close>, and the progress counters of
  \<open>self\<close> that the search increments. Every function below takes the frame and
  returns it as it leaves it. \<open>current_letters\<close> is a list of its own, created by
  \<open>_find_words_from_root\<close> and handed down through \<open>_search_trie\<close> only, so it is a
  separate argument and result. Printing is left out.
\<close>

record frame =
  remaining :: counter
  current_words :: "str list"
  solutions :: "str list list"
  attempt_count :: nat
  branch_count :: nat
  solution_count :: nat

text \<open>
  \<open>max_solutions is not None and len(solutions) >= max_solutions\<close>.
\<close>

definition cap_reached :: "int option \<Rightarrow> str list list \<Rightarrow> bool" where
  "cap_reached max_solutions sols =
     (case max_solutions of None \<Rightarrow> False | Some m \<Rightarrow> int (length sols) \<ge> m)"

text \<open>
  The word-slot: the word itself for a group of one, otherwise
  \<open>'[' + ' / '.join(original_words) + ']'\<close>.
\<close>

fun join :: "str \<Rightarrow> str list \<Rightarrow> str" where
  "join sep [] = []"
| "join sep [x] = x"
| "join sep (x # y # ys) = x @ sep @ join sep (y # ys)"

definition format_slot :: "str list \<Rightarrow> str" where
  "format_slot original_words =
     (if length original_words = 1 then hd original_words
      else ustr ''['' @ join (ustr '' / '') original_words @ ustr '']'')"

text \<open>
  \<open>self.key_to_words.get(key, [])\<close>.
\<close>

definition words_for_key :: "solver \<Rightarrow> str \<Rightarrow> str list" where
  "words_for_key s k = (case map_of (key_to_words s) k of None \<Rightarrow> [] | Some ws \<Rightarrow> ws)"

text \<open>
  The scan of \<open>_find_words_from_root\<close>: the first letter of \<open>letter_order\<close> whose
  count in \<open>remaining\<close> is positive, \<open>None\<close> when the loop ends without one.
\<close>

definition rarest_letter :: "solver \<Rightarrow> counter \<Rightarrow> letter option" where
  "rarest_letter s rem = find (\<lambda>l. counter_get rem l > 0) (letter_order s)"

text \<open>
  \<open>remaining[letter] -= 1\<close> and \<open>remaining[letter] += 1\<close>.
\<close>

definition take_letter :: "letter \<Rightarrow> frame \<Rightarrow> frame" where
  "take_letter l fr = fr\<lparr>remaining := counter_add (remaining fr) l (- 1)\<rparr>"

definition give_letter :: "letter \<Rightarrow> frame \<Rightarrow> frame" where
  "give_letter l fr = fr\<lparr>remaining := counter_add (remaining fr) l 1\<rparr>"

text \<open>
  \<open>search\<close> is \<open>_search\<close>, \<open>find_words_from_root\<close> is \<open>_find_words_from_root\<close> and
  \<open>search_trie\<close> is \<open>_search_trie\<close>. \<open>search_children\<close> is the loop
  \<open>for letter, child in node.children.items()\<close> of \<open>_search_trie\<close>, run on the
  children still to visit; its first result tells whether the loop was left by the
  \<open>return\<close> after the cap check. In \<open>_search_trie\<close> the test \<open>node.is_word and node.key\<close>
  needs a key that is neither \<open>None\<close> nor the empty string. \<open>pop()\<close> is \<open>butlast\<close>:
  both lists are non-empty where they are popped (lemma \<open>search_frame\<close> below: a call
  returns the lists as it got them, and an element was appended just before the call).
  The functions call each other through the results of earlier calls, so they are
  defined first and shown to terminate afterwards.
\<close>

function search :: "solver \<Rightarrow> int option \<Rightarrow> nat \<Rightarrow> frame \<Rightarrow> frame"
  and find_words_from_root :: "solver \<Rightarrow> int option \<Rightarrow> nat \<Rightarrow> frame \<Rightarrow> frame"
  and search_trie :: "solver \<Rightarrow> int option \<Rightarrow> nat \<Rightarrow> TrieNode \<Rightarrow> letter list \<Rightarrow> frame \<Rightarrow> letter list \<times> frame"
  and search_children :: "solver \<Rightarrow> int option \<Rightarrow> nat \<Rightarrow> (letter \<times> TrieNode) list \<Rightarrow> letter list \<Rightarrow> frame \<Rightarrow> bool \<times> letter list \<times> frame"
where
  "search s mx depth fr =
     (if cap_reached mx (solutions fr) then fr
      else if \<not> any_values (remaining fr) then
        fr\<lparr>solutions := solutions fr @ [current_words fr], solution_count := solution_count fr + 1\<rparr>
      else if sum_values (remaining fr) \<le> 0 then fr
      else find_words_from_root s mx depth fr)"
| "find_words_from_root s mx depth fr =
     (case rarest_letter s (remaining fr) of
        None \<Rightarrow> fr
      | Some rarest \<Rightarrow>
         (case map_of (children (trie s)) rarest of
            None \<Rightarrow> fr
          | Some child \<Rightarrow>
              give_letter rarest (snd (search_trie s mx depth child [rarest] (take_letter rarest fr)))))"
| "search_trie s mx depth node cl fr0 =
     (let fr = fr0\<lparr>attempt_count := attempt_count fr0 + 1\<rparr> in
      if cap_reached mx (solutions fr) then (cl, fr)
      else
        (case search_children s mx depth (children node) cl fr of
           (stopped, cl1, fr1) \<Rightarrow>
             if stopped then (cl1, fr1)
             else if is_word node \<and> key node \<noteq> None \<and> key node \<noteq> Some [] then
               (let fr2 = fr1\<lparr>branch_count := branch_count fr1 + 1\<rparr>;
                    original_words = words_for_key s (the (key node))
                in if original_words \<noteq> [] then
                     (let fr3 = search s mx (depth + 1)
                                  (fr2\<lparr>current_words := current_words fr2 @ [format_slot original_words]\<rparr>)
                      in (cl1, fr3\<lparr>current_words := butlast (current_words fr3)\<rparr>))
                   else (cl1, fr2))
             else (cl1, fr1)))"
| "search_children s mx depth [] cl fr = (False, cl, fr)"
| "search_children s mx depth ((l, child) # rest) cl fr =
     (if counter_get (remaining fr) l > 0 then
        (case search_trie s mx depth child (cl @ [l]) (take_letter l fr) of
           (cl1, fr1) \<Rightarrow>
             (let fr2 = give_letter l fr1; cl2 = butlast cl1
              in if cap_reached mx (solutions fr2) then (True, cl2, fr2)
                 else search_children s mx depth rest cl2 fr2))
      else search_children s mx depth rest cl fr)"
  by pat_completeness auto

text \<open>
  \<open>solve_pangram\<close>: the default alphabet \<open>chr(i) for i in range(0x10450, 0x10480)\<close>,
  the frame the search starts from, and the function itself. It returns the list
  \<open>solutions\<close>; the fields of \<open>self\<close> it rebuilds are those of \<open>build_trie\<close>.
\<close>

definition default_letters :: str where
  "default_letters = [0x10450 ..< 0x10480]"

definition start_frame :: "counter \<Rightarrow> frame" where
  "start_frame target_counter =
     \<lparr>remaining = target_counter, current_words = [], solutions = [],
      attempt_count = 0, branch_count = 0, solution_count = 0\<rparr>"

definition solve_pangram ::
  "solver \<Rightarrow> str option \<Rightarrow> int option \<Rightarrow> str set option \<Rightarrow> str set option \<Rightarrow> str list list" where
  "solve_pangram s target_letters max_solutions exclude_words exclude_pos =
     (let tl = (case target_letters of None \<Rightarrow> default_letters | Some t \<Rightarrow> t);
          target_set = set tl;
          target_counter = Counter tl;
          s' = build_trie s target_set exclude_words exclude_pos
      in if children (trie s') = [] then []
         else solutions (search s' max_solutions 0 (start_frame target_counter)))"

section \<open>main: target letters and starter words\<close>

text \<open>
  The part of \<open>main\<close> between parsing the arguments and calling \<open>solve_pangram\<close>.
  \<open>''.join(s.split())\<close> removes every whitespace character (\<open>is_space\<close> lists the
  code points for which \<open>str.isspace\<close> holds); an empty argument is falsy and is left
  as it is. The loop over the starter letters ends the program with \<open>sys.exit(1)\<close> at
  the first letter whose count is not positive. The result is the \<open>target_letters\<close>
  argument of \<open>solve_pangram\<close>, which counts it again with \<open>Counter\<close>.
\<close>

definition is_space :: "letter \<Rightarrow> bool" where
  "is_space c = (c \<in> {9, 10, 11, 12, 13, 28, 29, 30, 31, 32, 133, 160, 5760, 8232, 8233, 8239, 8287, 12288}
                 \<or> (8192 \<le> c \<and> c \<le> 8202))"

definition strip_whitespace :: "str \<Rightarrow> str" where
  "strip_whitespace t = filter (\<lambda>c. \<not> is_space c) t"

datatype exit = SystemExit int

fun remove_starters :: "counter \<Rightarrow> letter list \<Rightarrow> exit + counter" where
  "remove_starters target_counter [] = Inr target_counter"
| "remove_starters target_counter (l # ls) =
     (if counter_get target_counter l > 0 then remove_starters (counter_add target_counter l (- 1)) ls
      else Inl (SystemExit 1))"

definition rebuild_letters :: "counter \<Rightarrow> str" where
  "rebuild_letters target_counter =
     concat (map (\<lambda>item. replicate (nat (snd item)) (fst item)) (filter (\<lambda>item. snd item > 0) target_counter))"

definition main_target_letters :: "str option \<Rightarrow> str option \<Rightarrow> exit + str option" where
  "main_target_letters letters starter_words =
     (let target_letters =
            (case letters of None \<Rightarrow> None
             | Some t \<Rightarrow> if t \<noteq> [] then Some (strip_whitespace t) else Some t)
      in case starter_words of
           None \<Rightarrow> Inr target_letters
         | Some sw \<Rightarrow>
             if sw = [] then Inr target_letters
             else
               (let starter = strip_whitespace sw;
                    tl = (case target_letters of None \<Rightarrow> default_letters | Some t \<Rightarrow> t)
                in case remove_starters (Counter tl) starter of
                     Inl e \<Rightarrow> Inl e
                   | Inr target_counter \<Rightarrow> Inr (Some (rebuild_letters target_counter))))"

section \<open>The calls of a search\<close>

text \<open>
  To speak about the states a search passes through, the calls are made explicit:
  \<open>calls s mx c c'\<close> holds when the body of call \<open>c\<close> makes the call \<open>c'\<close>, with
  the frame it passes. The loop over \<open>node.children.items()\<close> counts as a call of its
  own, entered anew for each remaining list of children. The rules follow the bodies of
  the four functions above, guard by guard.
\<close>

datatype call =
    Search nat frame
  | FindWordsFromRoot nat frame
  | SearchTrie nat TrieNode "letter list" frame
  | ChildrenLoop nat "(letter \<times> TrieNode) list" "letter list" frame

fun call_frame :: "call \<Rightarrow> frame" where
  "call_frame (Search d fr) = fr"
| "call_frame (FindWordsFromRoot d fr) = fr"
| "call_frame (SearchTrie d node cl fr) = fr"
| "call_frame (ChildrenLoop d cs cl fr) = fr"

inductive calls :: "solver \<Rightarrow> int option \<Rightarrow> call \<Rightarrow> call \<Rightarrow> bool" for s mx where
  search_find:
    "\<not> cap_reached mx (solutions fr) \<Longrightarrow> any_values (remaining fr) \<Longrightarrow>
     \<not> sum_values (remaining fr) \<le> 0 \<Longrightarrow>
     calls s mx (Search d fr) (FindWordsFromRoot d fr)"
| find_trie:
    "rarest_letter s (remaining fr) = Some rarest \<Longrightarrow>
     map_of (children (trie s)) rarest = Some child \<Longrightarrow>
     calls s mx (FindWordsFromRoot d fr) (SearchTrie d child [rarest] (take_letter rarest fr))"
| trie_loop:
    "fr = fr0\<lparr>attempt_count := attempt_count fr0 + 1\<rparr> \<Longrightarrow>
     \<not> cap_reached mx (solutions fr) \<Longrightarrow>
     calls s mx (SearchTrie d node cl fr0) (ChildrenLoop d (children node) cl fr)"
| loop_trie:
    "counter_get (remaining fr) l > 0 \<Longrightarrow>
     calls s mx (ChildrenLoop d ((l, child) # rest) cl fr)
                (SearchTrie d child (cl @ [l]) (take_letter l fr))"
| loop_next:
    "counter_get (remaining fr) l > 0 \<Longrightarrow>
     search_trie s mx d child (cl @ [l]) (take_letter l fr) = (cl1, fr1) \<Longrightarrow>
     fr2 = give_letter l fr1 \<Longrightarrow>
     \<not> cap_reached mx (solutions fr2) \<Longrightarrow>
     calls s mx (ChildrenLoop d ((l, child) # rest) cl fr) (ChildrenLoop d rest (butlast cl1) fr2)"
| loop_skip:
    "\<not> counter_get (remaining fr) l > 0 \<Longrightarrow>
     calls s mx (ChildrenLoop d ((l, child) # rest) cl fr) (ChildrenLoop d rest cl fr)"
| trie_search:
    "fr = fr0\<lparr>attempt_count := attempt_count fr0 + 1\<rparr> \<Longrightarrow>
     \<not> cap_reached mx (solutions fr) \<Longrightarrow>
     search_children s mx d (children node) cl fr = (False, cl1, fr1) \<Longrightarrow>
     is_word node \<Longrightarrow> key node = Some k \<Longrightarrow> k \<noteq> [] \<Longrightarrow>
     fr2 = fr1\<lparr>branch_count := branch_count fr1 + 1\<rparr> \<Longrightarrow>
     words_for_key s k \<noteq> [] \<Longrightarrow>
     calls s mx (SearchTrie d node cl fr0)
       (Search (d + 1) (fr2\<lparr>current_words := current_words fr2 @ [format_slot (words_for_key s k)]\<rparr>))"

section \<open>Notions of the statements and proofs\<close>

subsection \<open>Frames\<close>

text \<open>
  The measure of the termination proof: the sum of the positive counts.
\<close>

definition pos_total :: "counter \<Rightarrow> nat" where
  "pos_total c = sum_list (map (\<lambda>item. nat (snd item)) c)"

text \<open>
  \<open>frame_kept fr fr'\<close>: the frame \<open>fr'\<close> has the counter and the path of \<open>fr\<close>, and
  its solutions are those of \<open>fr\<close> with more appended. Every call leaves its frame so.
\<close>

definition frame_kept :: "frame \<Rightarrow> frame \<Rightarrow> bool" where
  "frame_kept fr fr' =
     (remaining fr' = remaining fr \<and> current_words fr' = current_words fr \<and>
      (\<exists>new. solutions fr' = solutions fr @ new))"

text \<open>
  \<open>counts_nonneg\<close>: no count is negative. \<open>rem_inv c0 c\<close>: the counter \<open>c\<close> has the
  keys of \<open>c0\<close>, in the same order, and no negative count; it holds from a call to the
  calls it makes.
\<close>

definition counts_nonneg :: "counter \<Rightarrow> bool" where
  "counts_nonneg c = list_all (\<lambda>v. 0 \<le> v) (map snd c)"

definition rem_inv :: "counter \<Rightarrow> counter \<Rightarrow> bool" where
  "rem_inv c0 c = (map fst c = map fst c0 \<and> counts_nonneg c)"

text \<open>
  \<open>capped_like k c u\<close> relates a frame of the run with \<open>max_solutions = k\<close> to a frame
  of the run with \<open>max_solutions = None\<close>: same counter, same path, and the capped
  solutions are the first \<open>k\<close> of the unlimited ones.
\<close>

definition capped_like :: "int \<Rightarrow> frame \<Rightarrow> frame \<Rightarrow> bool" where
  "capped_like k c u =
     (remaining c = remaining u \<and> current_words c = current_words u \<and>
      solutions c = take (nat k) (solutions u))"

text \<open>
  \<open>recorded fr fr'\<close> are the solutions appended between the frames \<open>fr\<close> and
  \<open>fr'\<close>. \<open>from_zero s mx c sols\<close>: each solution of \<open>sols\<close> is the path
  \<open>current_words\<close> of a call of \<open>_search\<close> that is reached from the call \<open>c\<close> and
  whose counter holds no non-zero count.
\<close>

definition recorded :: "frame \<Rightarrow> frame \<Rightarrow> str list set" where
  "recorded fr fr' = set (drop (length (solutions fr)) (solutions fr'))"

definition from_zero :: "solver \<Rightarrow> int option \<Rightarrow> call \<Rightarrow> str list set \<Rightarrow> bool" where
  "from_zero s mx c sols =
     (\<forall>sol \<in> sols. \<exists>d fr. (calls s mx)\<^sup>*\<^sup>* c (Search d fr) \<and> \<not> any_values (remaining fr)
                         \<and> current_words fr = sol)"

subsection \<open>The trie and the groups that build\_trie leaves\<close>

text \<open>
  \<open>path_ok p node\<close>: the key stored at a node, if any, is the sequence of letters on the
  path from the root to the node, where \<open>p\<close> is the path to \<open>node\<close> itself.
\<close>

fun path_ok :: "str \<Rightarrow> TrieNode \<Rightarrow> bool" where
  "path_ok p (TrieNode cs w k) =
     ((case k of None \<Rightarrow> True | Some k' \<Rightarrow> k' = p) \<and>
      (\<forall>item \<in> set cs. path_ok (p @ [fst item]) (snd item)))"

text \<open>The groups of \<open>key_to_words\<close>.\<close>

definition group_ok :: "letter list \<Rightarrow> str set \<Rightarrow> str \<times> str list \<Rightarrow> bool" where
  "group_ok lo W item =
     (snd item \<noteq> [] \<and> (\<forall>w \<in> set (snd item). w \<in> W \<and> word_key lo w = fst item))"

definition anagram_groups :: "solver \<Rightarrow> bool" where
  "anagram_groups s = list_all (\<lambda>item. \<forall>w \<in> set (snd item). mset w = mset (fst item)) (key_to_words s)"

subsection \<open>Every recorded solution uses up the target\<close>

text \<open>
  \<open>counter_mset\<close> reads a counter as a multiset of letters. \<open>path_inv s T cl fr\<close> is the
  invariant of the search: the words chosen so far (each slot the formatted form of a
  group of \<open>key_to_words\<close>), the letters on the current trie path and the letters
  still in \<open>remaining\<close> together make up the target \<open>T\<close>.
\<close>

definition counter_mset :: "counter \<Rightarrow> letter multiset" where
  "counter_mset c = sum_list (map (\<lambda>item. replicate_mset (nat (snd item)) (fst item)) c)"

definition groups_of :: "solver \<Rightarrow> str list list \<Rightarrow> bool" where
  "groups_of s gs = list_all (\<lambda>g. g \<noteq> [] \<and> g \<in> snd ` set (key_to_words s)) gs"

definition letters_of :: "str list list \<Rightarrow> letter multiset" where
  "letters_of gs = sum_list (map (\<lambda>g. mset (hd g)) gs)"

definition solution_ok :: "solver \<Rightarrow> letter multiset \<Rightarrow> str list \<Rightarrow> bool" where
  "solution_ok s T sol = (\<exists>gs. sol = map format_slot gs \<and> groups_of s gs \<and> letters_of gs = T)"

definition path_inv :: "solver \<Rightarrow> letter multiset \<Rightarrow> letter list \<Rightarrow> frame \<Rightarrow> bool" where
  "path_inv s T cl fr =
     (\<exists>gs. current_words fr = map format_slot gs \<and> groups_of s gs \<and>
           letters_of gs + mset cl + counter_mset (remaining fr) = T)"

definition all_ok :: "solver \<Rightarrow> letter multiset \<Rightarrow> frame \<Rightarrow> bool" where
  "all_ok s T fr = list_all (solution_ok s T) (solutions fr)"

section \<open>Example lexicons\<close>

text \<open>
  Small lexicons for the closed instances below. \<open>solver_of\<close> loads a lexicon file
  with one key and the given entries.
\<close>

definition word_entry :: "string \<Rightarrow> entry" where
  "word_entry w = \<lparr>Shaw = Some (ustr w), pos = None\<rparr>"

definition tagged_entry :: "string \<Rightarrow> string \<Rightarrow> entry" where
  "tagged_entry w t = \<lparr>Shaw = Some (ustr w), pos = Some (ustr t)\<rparr>"

definition solver_of :: "entry list \<Rightarrow> solver" where
  "solver_of es =
     (case PangramSolver (Json [(ustr ''k'', es)]) of
        Inr s \<Rightarrow> s
      | Inl e \<Rightarrow> \<lparr>shaw_words = [], shaw_to_pos = Map.empty, trie = TrieNode [] False None,
                   letter_order = [], key_to_words = []\<rparr>)"

definition example_ab :: solver where
  "example_ab = build_trie (solver_of [word_entry ''ab'']) (set (ustr ''ab'')) None None"

definition example_anagrams :: solver where
  "example_anagrams = solver_of [word_entry ''ab'', word_entry ''ba'', word_entry ''c'']"

definition example_tagged :: solver where
  "example_tagged = solver_of [tagged_entry ''ab'' ''n'', tagged_entry ''ba'' ''v'', word_entry ''c'', word_entry ''cab'']"

definition example_az :: solver where
  "example_az = build_trie (solver_of [word_entry ''a'']) (set (ustr ''az'')) None None"

definition stuck_frame :: frame where
  "stuck_frame = \<lparr>remaining = [(97, 0), (122, 1)], current_words = [ustr ''a''], solutions = [],
     attempt_count = 1, branch_count = 1, solution_count = 0\<rparr>"

section \<open>Termination of the search\<close>

text \<open>
  A call of \<open>_search_trie\<close> inside the loop returns the counter it was given, so the next
  round of the loop starts from the same counter; this is shown for every call in the
  domain of the functions and then used in the termination proof. The measure is the sum
  of the positive counts of \<open>remaining\<close>, then the size of the trie still below.
\<close>

lemma counter_add_restore:
  "counter_get c l > 0 \<Longrightarrow> counter_add (counter_add c l (- 1)) l 1 = c"
  by (induction c) auto

lemma pos_total_take:
  "counter_get c l > 0 \<Longrightarrow> Suc (pos_total (counter_add c l (- 1))) = pos_total c"
  by (induction c) (auto simp: pos_total_def)

lemma rarest_letter_pos:
  "rarest_letter s rem = Some l \<Longrightarrow> counter_get rem l > 0"
  by (auto simp: rarest_letter_def find_Some_iff)

lemma give_take: "counter_get (remaining fr) l > 0 \<Longrightarrow> remaining fr1 = remaining (take_letter l fr) \<Longrightarrow>
   remaining (give_letter l fr1) = remaining fr"
  by (simp add: give_letter_def take_letter_def counter_add_restore)

lemma remaining_partial:
  "search_find_words_from_root_search_trie_search_children_dom (Inl (Inl (s, mx, depth, fr))) \<Longrightarrow>
     remaining (search s mx depth fr) = remaining fr"
  "search_find_words_from_root_search_trie_search_children_dom (Inl (Inr (s, mx, depth, fr))) \<Longrightarrow>
     remaining (find_words_from_root s mx depth fr) = remaining fr"
  "search_find_words_from_root_search_trie_search_children_dom (Inr (Inl (s, mx, depth, node, cl, fr))) \<Longrightarrow>
     remaining (snd (search_trie s mx depth node cl fr)) = remaining fr"
  "search_find_words_from_root_search_trie_search_children_dom (Inr (Inr (s, mx, depth, cs, cl, fr))) \<Longrightarrow>
     remaining (snd (snd (search_children s mx depth cs cl fr))) = remaining fr"
proof (induct rule: search_find_words_from_root_search_trie_search_children.pinduct)
  case (1 s mx depth fr)
  then show ?case by (simp add: search.psimps)
next
  case (2 s mx depth fr)
  then show ?case
    by (auto simp: find_words_from_root.psimps give_take rarest_letter_pos split: option.splits)
next
  case (3 s mx depth node cl fr0)
  then show ?case
    by (auto simp: search_trie.psimps Let_def split: prod.splits)
next
  case (4 s mx depth cl fr)
  then show ?case by (simp add: search_children.psimps)
next
  case (5 s mx depth l child rest cl fr)
  then show ?case
    by (auto simp: search_children.psimps Let_def give_take split: prod.splits)
qed

lemma pos_total_take_frame:
  "counter_get (remaining fr) l > 0 \<Longrightarrow> Suc (pos_total (remaining (take_letter l fr))) = pos_total (remaining fr)"
  by (simp add: take_letter_def pos_total_take)

lemma size_child_less:
  "map_of cs l = Some child \<Longrightarrow> size child \<le> size_list (\<lambda>p. size (snd p)) cs"
  by (induction cs) (auto split: if_splits)

lemma size_snd_le: "size_list (\<lambda>p. size (snd p)) cs \<le> size_list (size_prod (\<lambda>x. 0) size) cs"
  by (induction cs) auto

lemma size_children_less:
  "size_list (\<lambda>p. size (snd p)) (children node) < size node"
  using size_snd_le[of "children node"] by (cases node) (simp add: less_Suc_eq_le)

lemma remaining_children_partial:
  "(b, cl', fr') = search_children s mx depth cs cl fr \<Longrightarrow>
   search_find_words_from_root_search_trie_search_children_dom (Inr (Inr (s, mx, depth, cs, cl, fr))) \<Longrightarrow>
   remaining fr' = remaining fr"
  using remaining_partial(4)[of s mx depth cs cl fr] by (metis snd_conv)

lemma remaining_trie_partial:
  "(cl', fr') = search_trie s mx depth node cl fr \<Longrightarrow>
   search_find_words_from_root_search_trie_search_children_dom (Inr (Inl (s, mx, depth, node, cl, fr))) \<Longrightarrow>
   remaining fr' = remaining fr"
  using remaining_partial(3)[of s mx depth node cl fr] by (metis snd_conv)

termination search
  apply (relation "inv_image (less_than <*lex*> less_than)
    (\<lambda>x. case x of
       Inl (Inl (s, mx, depth, fr)) \<Rightarrow> (3 * pos_total (remaining fr) + 2, 0)
     | Inl (Inr (s, mx, depth, fr)) \<Rightarrow> (3 * pos_total (remaining fr) + 1, 0)
     | Inr (Inl (s, mx, depth, node, cl, fr)) \<Rightarrow> (3 * pos_total (remaining fr) + 3, 2 * size node + 1)
     | Inr (Inr (s, mx, depth, cs, cl, fr)) \<Rightarrow> (3 * pos_total (remaining fr) + 3, 2 * size_list (\<lambda>p. size (snd p)) cs))")
  apply (intro wf_inv_image wf_lex_prod wf_less_than)
  apply simp
  subgoal for s mx depth fr rarest child
    using pos_total_take_frame[of fr rarest] rarest_letter_pos[of s "remaining fr" rarest] by simp
  subgoal for s mx depth node cl fr0 x
    using size_children_less[of node] by simp
  subgoal for s mx depth node cl fr0 x xa y xb ya xc xd
    using remaining_children_partial[of xa xb ya s mx depth "children node" cl x] by simp
  subgoal for s mx depth l child rest cl fr
    using pos_total_take_frame[of fr l] by simp
  subgoal for s mx depth l child rest cl fr x y xa xb
    using remaining_trie_partial[of x y s mx depth child "cl @ [l]" "take_letter l fr"] give_take[of fr l y]
    by simp
  subgoal by simp
  done

declare search.simps [simp del] find_words_from_root.simps [simp del]
  search_trie.simps [simp del] search_children.simps [simp del]

section \<open>Lemmas: The search keeps its frame\<close>

lemma frame_kept_refl: "frame_kept fr fr"
  by (simp add: frame_kept_def)

lemma frame_kept_trans: "frame_kept a b \<Longrightarrow> frame_kept b c \<Longrightarrow> frame_kept a c"
  by (auto simp: frame_kept_def)

lemma frame_kept_give_take:
  "counter_get (remaining fr) l > 0 \<Longrightarrow> frame_kept (take_letter l fr) fr1 \<Longrightarrow>
   frame_kept fr (give_letter l fr1)"
  by (auto simp: frame_kept_def give_letter_def take_letter_def counter_add_restore)

lemma frame_kept_pop:
  "frame_kept (fr\<lparr>current_words := current_words fr @ [w]\<rparr>) fr3 \<Longrightarrow>
   frame_kept fr (fr3\<lparr>current_words := butlast (current_words fr3)\<rparr>)"
  by (auto simp: frame_kept_def)

lemma search_frame:
  "frame_kept fr (search s mx depth fr)"
  "frame_kept fr (find_words_from_root s mx depth fr)"
  "fst (search_trie s mx depth node cl fr) = cl \<and> frame_kept fr (snd (search_trie s mx depth node cl fr))"
  "fst (snd (search_children s mx depth cs cl fr)) = cl \<and>
   frame_kept fr (snd (snd (search_children s mx depth cs cl fr)))"
proof (induct s mx depth fr and s mx depth fr and s mx depth node cl fr and s mx depth cs cl fr
    rule: search_find_words_from_root_search_trie_search_children.induct)
  case (1 s mx depth fr)
  then show ?case
    by (auto simp: search.simps[of s mx depth fr] frame_kept_def)
next
  case (2 s mx depth fr)
  then show ?case
    by (auto simp: find_words_from_root.simps[of s mx depth fr] frame_kept_refl
        frame_kept_give_take rarest_letter_pos split: option.splits)
next
  case (3 s mx depth node cl fr0)
  let ?x = "fr0\<lparr>attempt_count := attempt_count fr0 + 1\<rparr>"
  have k0: "frame_kept fr0 ?x" by (simp add: frame_kept_def)
  show ?case
  proof (cases "cap_reached mx (solutions ?x)")
    case True
    then show ?thesis using k0 by (simp add: search_trie.simps[of s mx depth node cl fr0] Let_def)
  next
    case False
    obtain stopped cl1 fr1 where sc: "search_children s mx depth (children node) cl ?x = (stopped, cl1, fr1)"
      by (cases "search_children s mx depth (children node) cl ?x") auto
    from "3.hyps"(1)[OF refl False] sc have c1: "cl1 = cl" and k1: "frame_kept ?x fr1" by auto
    let ?fr2 = "fr1\<lparr>branch_count := branch_count fr1 + 1\<rparr>"
    have k2: "frame_kept fr0 ?fr2" using k0 k1 by (auto simp: frame_kept_def)
    have k01: "frame_kept fr0 fr1" using k0 k1 by (rule frame_kept_trans)
    show ?thesis
    proof (cases "\<not> stopped \<and> is_word node \<and> key node \<noteq> None \<and> key node \<noteq> Some []
                  \<and> words_for_key s (the (key node)) \<noteq> []")
      case True
      let ?w = "format_slot (words_for_key s (the (key node)))"
      let ?fr3 = "search s mx (depth + 1) (?fr2\<lparr>current_words := current_words ?fr2 @ [?w]\<rparr>)"
      have "frame_kept (?fr2\<lparr>current_words := current_words ?fr2 @ [?w]\<rparr>) ?fr3"
        using "3.hyps"(2)[OF refl False sc[symmetric] refl] True by simp
      then have "frame_kept ?fr2 (?fr3\<lparr>current_words := butlast (current_words ?fr3)\<rparr>)"
        by (rule frame_kept_pop)
      with k2 have "frame_kept fr0 (?fr3\<lparr>current_words := butlast (current_words ?fr3)\<rparr>)"
        by (rule frame_kept_trans)
      then show ?thesis using False sc True c1
        by (simp add: search_trie.simps[of s mx depth node cl fr0] Let_def)
    next
      case F2: False
      then show ?thesis using False sc c1 k01 k2
        by (auto simp: search_trie.simps[of s mx depth node cl fr0] Let_def)
    qed
  qed
next
  case (4 s mx depth cl fr)
  then show ?case by (simp add: search_children.simps frame_kept_refl)
next
  case (5 s mx depth l child rest cl fr)
  show ?case
  proof (cases "counter_get (remaining fr) l > 0")
    case True
    obtain cl1 fr1 where st: "search_trie s mx depth child (cl @ [l]) (take_letter l fr) = (cl1, fr1)"
      by (cases "search_trie s mx depth child (cl @ [l]) (take_letter l fr)") auto
    from "5.hyps"(1)[OF True] st have c1: "cl1 = cl @ [l]" and k1: "frame_kept (take_letter l fr) fr1"
      by auto
    have k2: "frame_kept fr (give_letter l fr1)" using True k1 by (rule frame_kept_give_take)
    show ?thesis
    proof (cases "cap_reached mx (solutions (give_letter l fr1))")
      case T2: True
      then show ?thesis using True st c1 k2
        by (simp add: search_children.simps(2)[of s mx depth l child rest cl fr] Let_def)
    next
      case False
      from "5.hyps"(2)[OF True st[symmetric] refl refl False] c1
      have "fst (snd (search_children s mx depth rest cl (give_letter l fr1))) = cl"
        and "frame_kept (give_letter l fr1) (snd (snd (search_children s mx depth rest cl (give_letter l fr1))))"
        by auto
      then show ?thesis using True st c1 False frame_kept_trans[OF k2]
        by (simp add: search_children.simps(2)[of s mx depth l child rest cl fr] Let_def)
    qed
  next
    case False
    then show ?thesis using "5.hyps"(3)
      by (simp add: search_children.simps(2)[of s mx depth l child rest cl fr])
  qed
qed

section \<open>Lemmas: The calls of a search\<close>

lemma counts_nonneg_take:
  "counts_nonneg c \<Longrightarrow> counter_get c l > 0 \<Longrightarrow> counts_nonneg (counter_add c l (- 1))"
  by (induction c) (auto simp: counts_nonneg_def)

lemma keys_take:
  "counter_get c l > 0 \<Longrightarrow> map fst (counter_add c l d) = map fst c"
  by (induction c) auto

lemma rem_inv_take:
  "rem_inv c0 (remaining fr) \<Longrightarrow> counter_get (remaining fr) l > 0 \<Longrightarrow>
   rem_inv c0 (remaining (take_letter l fr))"
  by (simp add: rem_inv_def take_letter_def counts_nonneg_take keys_take)

lemma calls_rem_inv:
  assumes "calls s mx c c'" and "rem_inv c0 (remaining (call_frame c))"
  shows "rem_inv c0 (remaining (call_frame c'))"
  using assms
proof (induction rule: calls.induct)
  case (search_find fr d)
  then show ?case by simp
next
  case (find_trie fr rarest child d)
  then show ?case by (simp add: rem_inv_take rarest_letter_pos)
next
  case (trie_loop fr fr0 d node cl)
  then show ?case by simp
next
  case (loop_trie fr l d child rest cl)
  then show ?case by (simp add: rem_inv_take)
next
  case (loop_next fr l d child cl cl1 fr1 fr2 rest)
  have "frame_kept (take_letter l fr) fr1"
    using search_frame(3)[of s mx d child "cl @ [l]" "take_letter l fr"] loop_next.hyps(2) by simp
  then have "frame_kept fr fr2"
    using loop_next.hyps(1,3) frame_kept_give_take by simp
  then show ?case using loop_next.prems by (simp add: frame_kept_def)
next
  case (loop_skip fr l d child rest cl)
  then show ?case by simp
next
  case (trie_search fr fr0 d node cl cl1 fr1 k fr2)
  have "frame_kept fr fr1"
    using search_frame(4)[of s mx d "children node" cl fr] trie_search.hyps(3) by simp
  then show ?case using trie_search by (simp add: frame_kept_def)
qed

lemma reach_rem_inv:
  assumes "(calls s mx)\<^sup>*\<^sup>* c c'" and "rem_inv c0 (remaining (call_frame c))"
  shows "rem_inv c0 (remaining (call_frame c'))"
  using assms by (induction rule: rtranclp_induct) (auto intro: calls_rem_inv)

lemma counts_nonneg_add1: "counts_nonneg c \<Longrightarrow> counts_nonneg (counter_add c x 1)"
  by (induction c) (auto simp: counts_nonneg_def)

lemma counts_nonneg_update: "counts_nonneg c \<Longrightarrow> counts_nonneg (counter_update c xs)"
  by (induction xs arbitrary: c) (auto simp: counts_nonneg_add1)

lemma counts_nonneg_Counter: "counts_nonneg (Counter xs)"
proof -
  have "counts_nonneg []" by (simp add: counts_nonneg_def)
  then show ?thesis unfolding Counter_def by (rule counts_nonneg_update)
qed

section \<open>Lemmas: A capped run against the unlimited run\<close>

lemma capped_like_stop:
  "capped_like k c u \<Longrightarrow> cap_reached (Some k) (solutions c) \<Longrightarrow> frame_kept u u' \<Longrightarrow>
   capped_like k c u'"
  by (auto simp: capped_like_def cap_reached_def frame_kept_def)

lemma capped_like_append:
  "capped_like k c u \<Longrightarrow> \<not> cap_reached (Some k) (solutions c) \<Longrightarrow>
   capped_like k (c\<lparr>solutions := solutions c @ [current_words c], solution_count := n\<rparr>)
                 (u\<lparr>solutions := solutions u @ [current_words u], solution_count := m\<rparr>)"
  by (auto simp: capped_like_def cap_reached_def min_def split: if_splits)

lemma capped_like_take:
  "capped_like k c u \<Longrightarrow> capped_like k (take_letter l c) (take_letter l u)"
  by (simp add: capped_like_def take_letter_def)

lemma capped_like_give:
  "capped_like k c u \<Longrightarrow> capped_like k (give_letter l c) (give_letter l u)"
  by (simp add: capped_like_def give_letter_def)

lemma capped_like_attempt:
  "capped_like k c u \<Longrightarrow> capped_like k (c\<lparr>attempt_count := n\<rparr>) (u\<lparr>attempt_count := m\<rparr>)"
  by (simp add: capped_like_def)

lemma capped_like_push:
  "capped_like k c u \<Longrightarrow>
   capped_like k (c\<lparr>branch_count := n, current_words := current_words c @ [w]\<rparr>)
                 (u\<lparr>branch_count := m, current_words := current_words u @ [w]\<rparr>)"
  by (simp add: capped_like_def)

lemma capped_like_branch:
  "capped_like k c u \<Longrightarrow> capped_like k (c\<lparr>branch_count := n\<rparr>) (u\<lparr>branch_count := m\<rparr>)"
  by (simp add: capped_like_def)

lemma capped_like_pop:
  "capped_like k c u \<Longrightarrow>
   capped_like k (c\<lparr>current_words := butlast (current_words c)\<rparr>)
                 (u\<lparr>current_words := butlast (current_words u)\<rparr>)"
  by (simp add: capped_like_def)

lemma capped_like_remaining: "capped_like k c u \<Longrightarrow> remaining c = remaining u"
  by (simp add: capped_like_def)

lemma capped_like_branch_r:
  "capped_like k c u \<Longrightarrow> capped_like k c (u\<lparr>branch_count := m\<rparr>)"
  by (simp add: capped_like_def)

lemma uncapped_never_stops: "\<not> fst (search_children s None depth cs cl fr)"
proof -
  have "mx = None \<longrightarrow> \<not> fst (search_children s mx depth cs cl fr)" for mx
  proof (rule search_find_words_from_root_search_trie_search_children.induct(4)
      [where P = "\<lambda>_ _ _ _. True" and Q = "\<lambda>_ _ _ _. True" and R = "\<lambda>_ _ _ _ _ _. True"], goal_cases)
    case (4 s mx depth cl fr)
    then show ?case by (simp add: search_children.simps)
  next
    case (5 s mx depth l child rest cl fr)
    then show ?case
      by (auto simp: search_children.simps(2)[of s mx depth l child rest cl fr]
          search_children.simps(2)[of s None depth l child rest cl fr] Let_def cap_reached_def
          split: prod.splits)
  qed simp_all
  then show ?thesis by simp
qed

lemma search_capped:
  "mx = None \<longrightarrow> (\<forall>c. capped_like k c fr \<longrightarrow>
      capped_like k (search s (Some k) depth c) (search s mx depth fr))"
  "mx = None \<longrightarrow> (\<forall>c. capped_like k c fr \<longrightarrow>
      capped_like k (find_words_from_root s (Some k) depth c) (find_words_from_root s mx depth fr))"
  "mx = None \<longrightarrow> (\<forall>c. capped_like k c fr \<longrightarrow>
      capped_like k (snd (search_trie s (Some k) depth node cl c)) (snd (search_trie s mx depth node cl fr)))"
  "mx = None \<longrightarrow> (\<forall>c. capped_like k c fr \<longrightarrow>
      capped_like k (snd (snd (search_children s (Some k) depth cs cl c)))
                    (snd (snd (search_children s mx depth cs cl fr)))
      \<and> (fst (search_children s (Some k) depth cs cl c) \<longrightarrow>
           cap_reached (Some k) (solutions (snd (snd (search_children s (Some k) depth cs cl c))))))"
proof (induct s mx depth fr and s mx depth fr and s mx depth node cl fr and s mx depth cs cl fr
    rule: search_find_words_from_root_search_trie_search_children.induct)
  case (1 s mx depth fr)
  show ?case
  proof (intro impI allI)
    fix c assume mx: "mx = None" and cl: "capped_like k c fr"
    have nc: "\<not> cap_reached mx (solutions fr)" using mx by (simp add: cap_reached_def)
    have rem: "remaining c = remaining fr" using cl by (rule capped_like_remaining)
    show "capped_like k (search s (Some k) depth c) (search s mx depth fr)"
    proof (cases "cap_reached (Some k) (solutions c)")
      case True
      have "capped_like k c (search s mx depth fr)"
        using cl True search_frame(1) by (rule capped_like_stop)
      then show ?thesis using True by (simp add: search.simps[of s "Some k" depth c])
    next
      case False
      show ?thesis
      proof (cases "any_values (remaining fr)")
        case F2: False
        then show ?thesis using False nc rem capped_like_append[OF cl False]
          by (simp add: search.simps[of s "Some k" depth c] search.simps[of s mx depth fr])
      next
        case True
        show ?thesis
        proof (cases "sum_values (remaining fr) \<le> 0")
          case T3: True
          then show ?thesis using False nc rem True cl
            by (simp add: search.simps[of s "Some k" depth c] search.simps[of s mx depth fr])
        next
          case F3: False
          from "1.hyps"[OF nc _ F3] True mx cl
          have "capped_like k (find_words_from_root s (Some k) depth c) (find_words_from_root s mx depth fr)"
            by simp
          then show ?thesis using False nc rem True F3
            by (simp add: search.simps[of s "Some k" depth c] search.simps[of s mx depth fr])
        qed
      qed
    qed
  qed
next
  case (2 s mx depth fr)
  show ?case
  proof (intro impI allI)
    fix c assume mx: "mx = None" and cl: "capped_like k c fr"
    have rem: "remaining c = remaining fr" using cl by (rule capped_like_remaining)
    show "capped_like k (find_words_from_root s (Some k) depth c) (find_words_from_root s mx depth fr)"
    proof (cases "rarest_letter s (remaining fr)")
      case None
      then show ?thesis using rem cl
        by (simp add: find_words_from_root.simps[of s "Some k" depth c] find_words_from_root.simps[of s mx depth fr])
    next
      case (Some rarest)
      show ?thesis
      proof (cases "map_of (children (trie s)) rarest")
        case None
        then show ?thesis using rem cl Some
          by (simp add: find_words_from_root.simps[of s "Some k" depth c] find_words_from_root.simps[of s mx depth fr])
      next
        case (Some child)
        from "2.hyps"[OF \<open>rarest_letter s (remaining fr) = Some rarest\<close> Some] mx capped_like_take[OF cl]
        have "capped_like k (snd (search_trie s (Some k) depth child [rarest] (take_letter rarest c)))
                (snd (search_trie s mx depth child [rarest] (take_letter rarest fr)))"
          by simp
        then show ?thesis using rem Some \<open>rarest_letter s (remaining fr) = Some rarest\<close>
          by (simp add: find_words_from_root.simps[of s "Some k" depth c]
              find_words_from_root.simps[of s mx depth fr] capped_like_give)
      qed
    qed
  qed
next
  case (3 s mx depth node cl fr0)
  show ?case
  proof (intro impI allI)
    fix c assume mx: "mx = None" and clk: "capped_like k c fr0"
    let ?xu = "fr0\<lparr>attempt_count := attempt_count fr0 + 1\<rparr>"
    let ?xc = "c\<lparr>attempt_count := attempt_count c + 1\<rparr>"
    have nc: "\<not> cap_reached mx (solutions ?xu)" using mx by (simp add: cap_reached_def)
    have x: "capped_like k ?xc ?xu" using clk by (rule capped_like_attempt)
    have ku: "frame_kept ?xu (snd (search_trie s mx depth node cl fr0))"
      using search_frame(3)[of s mx depth node cl fr0] by (simp add: frame_kept_def)
    obtain bu clu fu where su: "search_children s mx depth (children node) cl ?xu = (bu, clu, fu)"
      by (cases "search_children s mx depth (children node) cl ?xu") auto
    obtain bc clc fc where sc: "search_children s (Some k) depth (children node) cl ?xc = (bc, clc, fc)"
      by (cases "search_children s (Some k) depth (children node) cl ?xc") auto
    from "3.hyps"(1)[OF refl nc] mx x su sc
    have f: "capped_like k fc fu" and stop: "bc \<longrightarrow> cap_reached (Some k) (solutions fc)" by auto
    have clu: "clu = cl" using search_frame(4)[of s mx depth "children node" cl ?xu] su by simp
    have clc: "clc = cl" using search_frame(4)[of s "Some k" depth "children node" cl ?xc] sc by simp
    show "capped_like k (snd (search_trie s (Some k) depth node cl c)) (snd (search_trie s mx depth node cl fr0))"
    proof (cases "cap_reached (Some k) (solutions ?xc)")
      case True
      have "capped_like k ?xc (snd (search_trie s mx depth node cl fr0))"
        using x True ku by (rule capped_like_stop)
      then show ?thesis using True by (simp add: search_trie.simps[of s "Some k" depth node cl c] Let_def)
    next
      case False
      show ?thesis
      proof (cases "is_word node \<and> key node \<noteq> None \<and> key node \<noteq> Some []
                  \<and> words_for_key s (the (key node)) \<noteq> []")
        case True
        let ?w = "format_slot (words_for_key s (the (key node)))"
        let ?fu2 = "fu\<lparr>branch_count := branch_count fu + 1\<rparr>"
        let ?fc2 = "fc\<lparr>branch_count := branch_count fc + 1\<rparr>"
        let ?fu3 = "search s mx (depth + 1) (?fu2\<lparr>current_words := current_words ?fu2 @ [?w]\<rparr>)"
        let ?fc3 = "search s (Some k) (depth + 1) (?fc2\<lparr>current_words := current_words ?fc2 @ [?w]\<rparr>)"
        have bu: "\<not> bu" using uncapped_never_stops[of s depth "children node" cl ?xu] mx su by simp
        have ru: "snd (search_trie s mx depth node cl fr0) = ?fu3\<lparr>current_words := butlast (current_words ?fu3)\<rparr>"
          using nc su True bu by (simp add: search_trie.simps[of s mx depth node cl fr0] Let_def)
        show ?thesis
        proof (cases bc)
          case T: True
          have "frame_kept (?fu2\<lparr>current_words := current_words ?fu2 @ [?w]\<rparr>) ?fu3"
            by (rule search_frame(1))
          then have "frame_kept fu (?fu3\<lparr>current_words := butlast (current_words ?fu3)\<rparr>)"
            by (auto simp: frame_kept_def)
          with f stop T have "capped_like k fc (?fu3\<lparr>current_words := butlast (current_words ?fu3)\<rparr>)"
            using capped_like_stop by blast
          then show ?thesis using ru False sc T
            by (simp add: search_trie.simps[of s "Some k" depth node cl c] Let_def)
        next
          case F: False
          have "capped_like k (?fc2\<lparr>current_words := current_words ?fc2 @ [?w]\<rparr>)
                  (?fu2\<lparr>current_words := current_words ?fu2 @ [?w]\<rparr>)"
            using f by (simp add: capped_like_def)
          with "3.hyps"(2)[OF refl nc su[symmetric] refl bu _ refl refl] True mx
          have "capped_like k ?fc3 ?fu3" by simp
          then have "capped_like k (?fc3\<lparr>current_words := butlast (current_words ?fc3)\<rparr>)
                    (?fu3\<lparr>current_words := butlast (current_words ?fu3)\<rparr>)"
            by (rule capped_like_pop)
          then show ?thesis using ru False sc F True
            by (simp add: search_trie.simps[of s "Some k" depth node cl c] Let_def)
        qed
      next
        case F1: False
        have bu: "\<not> bu" using uncapped_never_stops[of s depth "children node" cl ?xu] mx su by simp
        have "capped_like k (fc\<lparr>branch_count := branch_count fc + 1\<rparr>) (fu\<lparr>branch_count := branch_count fu + 1\<rparr>)"
          using f by (rule capped_like_branch)
        then show ?thesis using nc su False sc F1 f bu capped_like_branch_r[OF f]
          by (auto simp: search_trie.simps[of s "Some k" depth node cl c]
              search_trie.simps[of s mx depth node cl fr0] Let_def)
      qed
    qed
  qed
next
  case (4 s mx depth cl fr)
  then show ?case by (simp add: search_children.simps)
next
  case (5 s mx depth l child rest cl fr)
  show ?case
  proof (intro impI allI)
    fix c assume mx: "mx = None" and clk: "capped_like k c fr"
    have rem: "remaining c = remaining fr" using clk by (rule capped_like_remaining)
    let ?rc = "search_children s (Some k) depth ((l, child) # rest) cl c"
    let ?ru = "search_children s mx depth ((l, child) # rest) cl fr"
    show "capped_like k (snd (snd ?rc)) (snd (snd ?ru)) \<and>
          (fst ?rc \<longrightarrow> cap_reached (Some k) (solutions (snd (snd ?rc))))"
    proof (cases "counter_get (remaining fr) l > 0")
      case False
      have "capped_like k (snd (snd (search_children s (Some k) depth rest cl c)))
                    (snd (snd (search_children s mx depth rest cl fr)))
          \<and> (fst (search_children s (Some k) depth rest cl c) \<longrightarrow>
              cap_reached (Some k) (solutions (snd (snd (search_children s (Some k) depth rest cl c)))))"
        using "5.hyps"(3)[OF False] mx clk by simp
      then show ?thesis using False rem
        by (simp add: search_children.simps(2)[of s "Some k" depth l child rest cl c]
              search_children.simps(2)[of s mx depth l child rest cl fr])
    next
      case True
      obtain clu fu where su: "search_trie s mx depth child (cl @ [l]) (take_letter l fr) = (clu, fu)"
        by (cases "search_trie s mx depth child (cl @ [l]) (take_letter l fr)") auto
      obtain clc fc where sc: "search_trie s (Some k) depth child (cl @ [l]) (take_letter l c) = (clc, fc)"
        by (cases "search_trie s (Some k) depth child (cl @ [l]) (take_letter l c)") auto
      have clu: "clu = cl @ [l]" using search_frame(3)[of s mx depth child "cl @ [l]" "take_letter l fr"] su by simp
      have clc: "clc = cl @ [l]" using search_frame(3)[of s "Some k" depth child "cl @ [l]" "take_letter l c"] sc by simp
      have "capped_like k (snd (search_trie s (Some k) depth child (cl @ [l]) (take_letter l c)))
              (snd (search_trie s mx depth child (cl @ [l]) (take_letter l fr)))"
        using "5.hyps"(1)[OF True] mx capped_like_take[OF clk, of l] by blast
      with su sc have "capped_like k fc fu" by simp
      then have g: "capped_like k (give_letter l fc) (give_letter l fu)" by (rule capped_like_give)
      have ncu: "\<not> cap_reached mx (solutions (give_letter l fu))" using mx by (simp add: cap_reached_def)
      have ru: "?ru = search_children s mx depth rest cl (give_letter l fu)"
        using True su clu ncu by (simp add: search_children.simps(2)[of s mx depth l child rest cl fr] Let_def)
      show ?thesis
      proof (cases "cap_reached (Some k) (solutions (give_letter l fc))")
        case T: True
        have rc: "?rc = (True, cl, give_letter l fc)"
          using True rem sc clc T by (simp add: search_children.simps(2)[of s "Some k" depth l child rest cl c] Let_def)
        have "frame_kept (give_letter l fu) (snd (snd (search_children s mx depth rest cl (give_letter l fu))))"
          using search_frame(4) by simp
        with g T have "capped_like k (give_letter l fc) (snd (snd (search_children s mx depth rest cl (give_letter l fu))))"
          by (rule capped_like_stop)
        then show ?thesis using rc ru T by simp
      next
        case F: False
        have rc: "?rc = search_children s (Some k) depth rest cl (give_letter l fc)"
          using True rem sc clc F by (simp add: search_children.simps(2)[of s "Some k" depth l child rest cl c] Let_def)
        from "5.hyps"(2)[OF True su[symmetric] refl refl ncu] mx g clu
        show ?thesis using rc ru by simp
      qed
    qed
  qed
qed

section \<open>Lemmas: What build\_trie computes\<close>

lemma counter_update_append:
  "counter_update c (xs @ ys) = counter_update (counter_update c xs) ys"
  by (induction xs arbitrary: c) auto

lemma scan_words_eq:
  "scan_words stp T ew ep ws (lc, fw) =
     (counter_update lc (concat (filter (keep_word stp T ew ep) ws)),
      fw @ filter (keep_word stp T ew ep) ws)"
  by (induction ws arbitrary: lc fw) (auto simp: keep_word_def counter_update_append)

lemma filtered_words_eq:
  "filtered_words s T ew ep =
     filter (keep_word (shaw_to_pos s) T (case ew of None \<Rightarrow> {} | Some e \<Rightarrow> e)
               (case ep of None \<Rightarrow> {} | Some e \<Rightarrow> e)) (shaw_words s)"
  by (simp add: filtered_words_def scan_words_eq)

lemma letter_order_build:
  "letter_order (build_trie s T ew ep) = make_letter_order (Counter (concat (filtered_words s T ew ep)))"
  by (simp add: build_trie_def filtered_words_eq scan_words_eq Counter_def Let_def)

lemma keys_counter_add_list:
  "map fst (counter_add c x d) = (if x \<in> fst ` set c then map fst c else map fst c @ [x])"
  by (induction c) force+

lemma keys_counter_add: "set (map fst (counter_add c x d)) = insert x (set (map fst c))"
  by (auto simp: keys_counter_add_list)

lemma distinct_counter_add: "distinct (map fst c) \<Longrightarrow> distinct (map fst (counter_add c x d))"
  by (auto simp: keys_counter_add_list)

lemma get_counter_add:
  "counter_get (counter_add c x d) l = counter_get c l + (if l = x then d else 0)"
  by (induction c) auto

lemma keys_counter_update: "set (map fst (counter_update c xs)) = set (map fst c) \<union> set xs"
  by (induction xs arbitrary: c) (auto simp: keys_counter_add simp del: set_map)

lemma distinct_counter_update: "distinct (map fst c) \<Longrightarrow> distinct (map fst (counter_update c xs))"
  by (induction xs arbitrary: c) (auto simp: distinct_counter_add)

lemma get_counter_update:
  "counter_get (counter_update c xs) l = counter_get c l + int (count_list xs l)"
  by (induction xs arbitrary: c) (auto simp: get_counter_add)

lemma counter_get_member:
  "distinct (map fst c) \<Longrightarrow> (l, n) \<in> set c \<Longrightarrow> counter_get c l = n"
  by (induction c) (auto simp: rev_image_eqI)

lemma Counter_keys: "set (map fst (Counter xs)) = set xs"
  by (simp add: Counter_def keys_counter_update del: set_map)

lemma Counter_distinct: "distinct (map fst (Counter xs))"
  by (simp add: Counter_def distinct_counter_update)

lemma Counter_get: "counter_get (Counter xs) l = int (count_list xs l)"
  by (simp add: Counter_def get_counter_update)

lemma Counter_items: "item \<in> set (Counter xs) \<Longrightarrow> snd item = int (count_list xs (fst item))"
  using counter_get_member[OF Counter_distinct, of "fst item" "snd item" xs] Counter_get[of xs "fst item"]
  by simp

lemma make_letter_order_set: "set (make_letter_order (Counter xs)) = set xs"
  using Counter_keys[of xs] by (simp add: make_letter_order_def most_common_def)

lemma make_letter_order_distinct: "distinct (make_letter_order (Counter xs))"
proof -
  have "mset (map fst (sort_key (\<lambda>item. - snd item) (Counter xs))) = mset (map fst (Counter xs))"
    by simp
  then have "distinct (map fst (sort_key (\<lambda>item. - snd item) (Counter xs)))"
    using Counter_distinct[of xs] by (metis mset_eq_imp_distinct_iff)
  then show ?thesis by (simp add: make_letter_order_def most_common_def)
qed

lemma make_letter_order_sorted:
  "sorted (map (\<lambda>l. count_list xs l) (make_letter_order (Counter xs)))"
proof -
  let ?its = "sort_key (\<lambda>item. - snd item) (Counter xs)"
  have s: "sorted (map (\<lambda>item. - snd item) ?its)" by (rule sorted_sort_key)
  have c: "\<And>item. item \<in> set ?its \<Longrightarrow> snd item = int (count_list xs (fst item))"
    using Counter_items by simp
  have "sorted_wrt (\<lambda>a b. - snd a \<le> - snd b) ?its" using s by (simp add: sorted_map)
  then have "sorted_wrt (\<lambda>a b. count_list xs (fst b) \<le> count_list xs (fst a)) ?its"
    by (rule sorted_wrt_mono_rel[rotated]) (use c in auto)
  then have "sorted_wrt (\<lambda>a b. count_list xs a \<le> count_list xs b) (rev (map fst ?its))"
    by (simp add: sorted_wrt_rev sorted_wrt_map)
  then show ?thesis by (simp add: make_letter_order_def most_common_def sorted_map)
qed

lemma index_of_inj:
  "x \<in> set lo \<Longrightarrow> y \<in> set lo \<Longrightarrow> index_of lo x = index_of lo y \<Longrightarrow> x = y"
  by (induction lo) (auto split: if_splits)

lemma rank_inj_on: "inj_on (rank lo) (set lo)"
  by (auto simp: inj_on_def rank_def dest: index_of_inj)

lemma word_key_mset: "mset (word_key lo w) = mset w"
  by (simp add: word_key_def)

lemma word_key_anagram:
  assumes "set w1 \<subseteq> set lo" and "mset w1 = mset w2"
  shows "word_key lo w1 = word_key lo w2"
proof -
  have i: "inj_on (rank lo) (set w1)" using rank_inj_on assms(1) by (rule inj_on_subset)
  have m: "mset w1 = mset (sort_key (rank lo) w2)" using assms(2) by simp
  have "sorted (map (rank lo) (sort_key (rank lo) w2))" by (rule sorted_sort_key)
  with m i have "sort_key (rank lo) w1 = sort_key (rank lo) w2" by (rule sort_key_inj_key_eq)
  then show ?thesis by (simp add: word_key_def)
qed

lemma filtered_word_letters:
  "w \<in> set (filtered_words s T ew ep) \<Longrightarrow> set w \<subseteq> set (letter_order (build_trie s T ew ep))"
  by (auto simp: letter_order_build make_letter_order_set)

section \<open>Lemmas: The trie and the groups that build\_trie leaves\<close>

lemma path_ok_children:
  "path_ok p node \<Longrightarrow> (l, c) \<in> set (children node) \<Longrightarrow> path_ok (p @ [l]) c"
  by (cases node) auto

lemma path_ok_key: "path_ok p node \<Longrightarrow> key node = Some k \<Longrightarrow> k = p"
  by (cases node) auto

lemma path_ok_intro:
  "(\<And>k. key node = Some k \<Longrightarrow> k = p) \<Longrightarrow>
   (\<And>l c. (l, c) \<in> set (children node) \<Longrightarrow> path_ok (p @ [l]) c) \<Longrightarrow> path_ok p node"
  by (cases node) (auto split: option.splits)

lemma add_key_path_ok:
  "path_ok p node \<Longrightarrow> p @ ls = k \<Longrightarrow> path_ok p (add_key node ls k)"
proof (induction ls arbitrary: node p)
  case Nil
  then show ?case by (cases node) auto
next
  case (Cons l ls)
  have pl: "(p @ [l]) @ ls = k" using Cons.prems(2) by simp
  show ?case
  proof (cases "map_of (children node) l")
    case None
    have "path_ok (p @ [l]) (TrieNode [] False None)" by simp
    then have "path_ok (p @ [l]) (add_key (TrieNode [] False None) ls k)"
      using pl by (rule Cons.IH)
    then show ?thesis using None Cons.prems(1) by (cases node) auto
  next
    case (Some child)
    have "\<And>c. (l, c) \<in> set (children node) \<Longrightarrow> path_ok (p @ [l]) (add_key c ls k)"
      using Cons.IH[OF path_ok_children[OF Cons.prems(1)] pl] by simp
    then show ?thesis using Some Cons.prems(1) by (cases node) (auto split: if_splits)
  qed
qed

lemma add_keys_path_ok: "path_ok [] root \<Longrightarrow> path_ok [] (add_keys root ks)"
  by (induction ks arbitrary: root) (auto simp: add_key_to_trie_def add_key_path_ok)

lemma sort_trie_children_path_ok: "path_ok p node \<Longrightarrow> path_ok p (sort_trie_children lo node)"
proof (induction lo node arbitrary: p rule: sort_trie_children.induct)
  case (1 lo cs w k)
  show ?case
  proof (cases "cs = []")
    case True
    then show ?thesis using "1.prems" by simp
  next
    case False
    have "\<And>item. item \<in> set cs \<Longrightarrow> path_ok (p @ [fst item]) (sort_trie_children lo (snd item))"
    proof -
      fix item assume i: "item \<in> set cs"
      obtain l c where lc: "item = (l, c)" by (cases item)
      have "path_ok (p @ [l]) c" using "1.prems" i lc by auto
      with "1.IH"[OF False _ lc[symmetric]] i lc show "path_ok (p @ [fst item]) (sort_trie_children lo (snd item))"
        by simp
    qed
    then show ?thesis using False "1.prems" by (auto split: option.splits)
  qed
qed

lemma trie_build_eq:
  "trie (build_trie s T ew ep) =
     sort_trie_children (letter_order (build_trie s T ew ep))
       (add_keys (TrieNode [] False None) (map fst (key_to_words (build_trie s T ew ep))))"
  by (simp add: build_trie_def Let_def split: prod.splits)

lemma trie_build_path_ok: "path_ok [] (trie (build_trie s T ew ep))"
  unfolding trie_build_eq
  by (rule sort_trie_children_path_ok, rule add_keys_path_ok) simp

lemma group_ok_new: "shaw \<in> W \<Longrightarrow> group_ok lo W (word_key lo shaw, [shaw])"
  by (simp add: group_ok_def)

lemma group_ok_add:
  "group_ok lo W (k, ws) \<Longrightarrow> shaw \<in> W \<Longrightarrow> k = word_key lo shaw \<Longrightarrow> group_ok lo W (k, ws @ [shaw])"
  by (simp add: group_ok_def)

lemma group_ok_sort: "group_ok lo W (k, ws) \<Longrightarrow> group_ok lo W (k, sort ws)"
  by (simp add: group_ok_def) (metis length_sort length_0_conv)

lemma add_to_group_ok:
  "list_all (group_ok lo W) kts \<Longrightarrow> shaw \<in> W \<Longrightarrow>
   list_all (group_ok lo W) (add_to_group kts (word_key lo shaw) shaw)"
proof (induction kts)
  case Nil
  then show ?case by (simp add: group_ok_new)
next
  case (Cons a kts)
  obtain k ws where a: "a = (k, ws)" by (cases a)
  show ?case
  proof (cases "k = word_key lo shaw")
    case True
    have "group_ok lo W (k, ws)" using Cons.prems(1) a by simp
    then have "group_ok lo W (k, ws @ [shaw])" using Cons.prems(2) True by (rule group_ok_add)
    then show ?thesis using Cons.prems a True by simp
  next
    case False
    then show ?thesis using Cons a by simp
  qed
qed

lemma group_words_ok:
  "list_all (group_ok lo W) kts \<Longrightarrow> set ws \<subseteq> W \<Longrightarrow> list_all (group_ok lo W) (group_words lo kts ws)"
  by (induction ws arbitrary: kts) (simp_all add: add_to_group_ok)

lemma sorted_groups_ok:
  "list_all (group_ok lo W) kts \<Longrightarrow> list_all (group_ok lo W) (sorted_groups kts)"
  unfolding sorted_groups_def
proof (induction kts)
  case Nil
  then show ?case by simp
next
  case (Cons a kts)
  obtain k ws where a: "a = (k, ws)" by (cases a)
  show ?case using Cons a by (simp add: group_ok_sort)
qed

lemma key_to_words_build_eq:
  "key_to_words (build_trie s T ew ep) =
     sorted_groups (group_words (letter_order (build_trie s T ew ep)) [] (filtered_words s T ew ep))"
  by (simp add: build_trie_def Let_def filtered_words_def split: prod.splits)

lemma key_to_words_build:
  "list_all (group_ok (letter_order (build_trie s T ew ep)) (set (filtered_words s T ew ep)))
     (key_to_words (build_trie s T ew ep))"
  unfolding key_to_words_build_eq
  by (rule sorted_groups_ok, rule group_words_ok) simp_all

section \<open>Lemmas: Every recorded solution uses up the target\<close>

lemma replicate_mset_pred: "0 < v \<Longrightarrow> add_mset l (replicate_mset (nat (v - 1)) l) = replicate_mset (nat v) l"
proof -
  assume "0 < v"
  then have "nat v = Suc (nat (v - 1))" by simp
  then show ?thesis by simp
qed

lemma counter_mset_take:
  "counter_get c l > 0 \<Longrightarrow> add_mset l (counter_mset (counter_add c l (- 1))) = counter_mset c"
proof (induction c)
  case Nil
  then show ?case by simp
next
  case (Cons a c)
  obtain k v where a: "a = (k, v)" by (cases a)
  show ?case
  proof (cases "k = l")
    case True
    then show ?thesis using Cons.prems a replicate_mset_pred[of v l]
      by (simp add: counter_mset_def)
  next
    case False
    then show ?thesis using Cons a by (simp add: counter_mset_def)
  qed
qed

lemma counter_mset_zero: "\<not> any_values c \<Longrightarrow> counter_mset c = {#}"
  by (induction c) (simp_all add: counter_mset_def any_values_def)

lemma counter_mset_add1:
  "counts_nonneg c \<Longrightarrow> counter_mset (counter_add c x 1) = add_mset x (counter_mset c)"
proof (induction c)
  case Nil
  then show ?case by (simp add: counter_mset_def)
next
  case (Cons a c)
  obtain k v where a: "a = (k, v)" by (cases a)
  have v: "0 \<le> v" and c: "counts_nonneg c" using Cons.prems a by (simp_all add: counts_nonneg_def)
  then have "nat (v + 1) = Suc (nat v)" by simp
  then show ?case using Cons.IH[OF c] a by (simp add: counter_mset_def)
qed

lemma counter_mset_update:
  "counts_nonneg c \<Longrightarrow> counter_mset (counter_update c xs) = counter_mset c + mset xs"
  by (induction xs arbitrary: c) (simp_all add: counter_mset_add1 counts_nonneg_add1)

lemma counter_mset_Counter: "counter_mset (Counter xs) = mset xs"
proof -
  have "counts_nonneg []" by (simp add: counts_nonneg_def)
  then show ?thesis unfolding Counter_def by (simp add: counter_mset_update) (simp add: counter_mset_def)
qed

lemma path_inv_take:
  assumes "path_inv s T cl fr" and "counter_get (remaining fr) l > 0"
  shows "path_inv s T (cl @ [l]) (take_letter l fr)"
proof -
  from assms(1) obtain gs where g: "current_words fr = map format_slot gs" "groups_of s gs"
    "letters_of gs + mset cl + counter_mset (remaining fr) = T"
    unfolding path_inv_def by blast
  have e: "add_mset l (counter_mset (counter_add (remaining fr) l (- 1))) = counter_mset (remaining fr)"
    by (rule counter_mset_take[OF assms(2)])
  have "letters_of gs + mset (cl @ [l]) + counter_mset (counter_add (remaining fr) l (- 1))
      = letters_of gs + mset cl + add_mset l (counter_mset (counter_add (remaining fr) l (- 1)))"
    by simp
  then have "letters_of gs + mset (cl @ [l]) + counter_mset (counter_add (remaining fr) l (- 1)) = T"
    using e g(3) by simp
  then show ?thesis unfolding path_inv_def using g(1,2)
    by (intro exI[of _ gs]) (simp add: take_letter_def)
qed

lemma path_inv_kept:
  "path_inv s T cl fr \<Longrightarrow> frame_kept fr fr' \<Longrightarrow> path_inv s T cl fr'"
  by (simp add: path_inv_def frame_kept_def)

lemma path_inv_solution:
  "path_inv s T [] fr \<Longrightarrow> \<not> any_values (remaining fr) \<Longrightarrow> solution_ok s T (current_words fr)"
  by (auto simp: path_inv_def solution_ok_def counter_mset_zero)

lemma path_inv_word:
  assumes "path_inv s T cl fr" and "ws \<noteq> []" and "ws \<in> snd ` set (key_to_words s)"
    and "mset (hd ws) = mset cl"
  shows "path_inv s T [] (fr\<lparr>branch_count := n, current_words := current_words fr @ [format_slot ws]\<rparr>)"
proof -
  from assms(1) obtain gs where g: "current_words fr = map format_slot gs" "groups_of s gs"
    "letters_of gs + mset cl + counter_mset (remaining fr) = T"
    unfolding path_inv_def by blast
  have 1: "current_words fr @ [format_slot ws] = map format_slot (gs @ [ws])" using g(1) by simp
  have 2: "groups_of s (gs @ [ws])" using g(2) assms(2,3) by (simp add: groups_of_def)
  have 3: "letters_of (gs @ [ws]) + mset [] + counter_mset (remaining fr) = T"
    using g(3) assms(4) by (simp add: letters_of_def)
  show ?thesis unfolding path_inv_def using 1 2 3 by (intro exI[of _ "gs @ [ws]"]) simp
qed

lemma words_for_key_group:
  assumes "anagram_groups s" and "words_for_key s k \<noteq> []"
  shows "words_for_key s k \<in> snd ` set (key_to_words s) \<and> mset (hd (words_for_key s k)) = mset k"
proof -
  from assms(2) obtain ws where m: "map_of (key_to_words s) k = Some ws" and ws: "words_for_key s k = ws"
    by (cases "map_of (key_to_words s) k") (simp_all add: words_for_key_def)
  then have i: "(k, ws) \<in> set (key_to_words s)" by (simp add: map_of_SomeD)
  then have "\<forall>w \<in> set ws. mset w = mset k"
    using assms(1) unfolding anagram_groups_def list_all_iff by fastforce
  moreover have "hd ws \<in> set ws" using assms(2) ws by simp
  ultimately have "mset (hd ws) = mset k" by blast
  moreover have "ws \<in> snd ` set (key_to_words s)" using i by force
  ultimately show ?thesis using ws by simp
qed

lemma all_ok_same: "solutions fr' = solutions fr \<Longrightarrow> all_ok s T fr' = all_ok s T fr"
  by (simp add: all_ok_def)

lemma search_solutions_ok:
  "anagram_groups s \<longrightarrow> path_ok [] (trie s) \<longrightarrow> path_inv s T [] fr \<longrightarrow> all_ok s T fr \<longrightarrow>
     all_ok s T (search s mx depth fr)"
  "anagram_groups s \<longrightarrow> path_ok [] (trie s) \<longrightarrow> path_inv s T [] fr \<longrightarrow> all_ok s T fr \<longrightarrow>
     all_ok s T (find_words_from_root s mx depth fr)"
  "anagram_groups s \<longrightarrow> path_ok [] (trie s) \<longrightarrow> path_ok cl node \<longrightarrow> path_inv s T cl fr \<longrightarrow> all_ok s T fr \<longrightarrow>
     all_ok s T (snd (search_trie s mx depth node cl fr))"
  "anagram_groups s \<longrightarrow> path_ok [] (trie s) \<longrightarrow> list_all (\<lambda>item. path_ok (cl @ [fst item]) (snd item)) cs \<longrightarrow>
     path_inv s T cl fr \<longrightarrow> all_ok s T fr \<longrightarrow>
     all_ok s T (snd (snd (search_children s mx depth cs cl fr)))"
proof (induct s mx depth fr and s mx depth fr and s mx depth node cl fr and s mx depth cs cl fr
    rule: search_find_words_from_root_search_trie_search_children.induct)
  case (1 s mx depth fr)
  show ?case
  proof (intro impI)
    assume ag: "anagram_groups s" and root: "path_ok [] (trie s)" and pi: "path_inv s T [] fr"
      and ok: "all_ok s T fr"
    show "all_ok s T (search s mx depth fr)"
    proof (cases "cap_reached mx (solutions fr)")
      case True
      then show ?thesis using ok by (simp add: search.simps[of s mx depth fr])
    next
      case False
      show ?thesis
      proof (cases "any_values (remaining fr)")
        case F2: False
        have "solution_ok s T (current_words fr)" using pi F2 by (rule path_inv_solution)
        then show ?thesis using False F2 ok
          by (simp add: search.simps[of s mx depth fr] all_ok_def)
      next
        case True
        show ?thesis
        proof (cases "sum_values (remaining fr) \<le> 0")
          case T3: True
          then show ?thesis using False True ok by (simp add: search.simps[of s mx depth fr])
        next
          case F3: False
          have "all_ok s T (find_words_from_root s mx depth fr)"
            using "1.hyps"[OF False _ F3] True ag root pi ok by simp
          then show ?thesis using False True F3 by (simp add: search.simps[of s mx depth fr])
        qed
      qed
    qed
  qed
next
  case (2 s mx depth fr)
  show ?case
  proof (intro impI)
    assume ag: "anagram_groups s" and root: "path_ok [] (trie s)" and pi: "path_inv s T [] fr"
      and ok: "all_ok s T fr"
    show "all_ok s T (find_words_from_root s mx depth fr)"
    proof (cases "rarest_letter s (remaining fr)")
      case None
      then show ?thesis using ok by (simp add: find_words_from_root.simps[of s mx depth fr])
    next
      case (Some rarest)
      note r = this
      show ?thesis
      proof (cases "map_of (children (trie s)) rarest")
        case None
        then show ?thesis using ok r by (simp add: find_words_from_root.simps[of s mx depth fr])
      next
        case (Some child)
        have pos: "counter_get (remaining fr) rarest > 0" using r by (rule rarest_letter_pos)
        have "(rarest, child) \<in> set (children (trie s))" using Some by (rule map_of_SomeD)
        with root have pc: "path_ok ([] @ [rarest]) child" by (rule path_ok_children)
        have pi': "path_inv s T ([] @ [rarest]) (take_letter rarest fr)" using pi pos by (rule path_inv_take)
        have ok': "all_ok s T (take_letter rarest fr)" using ok by (simp add: all_ok_def take_letter_def)
        have "all_ok s T (snd (search_trie s mx depth child [rarest] (take_letter rarest fr)))"
          using "2.hyps"[OF r Some] ag root pc pi' ok' by simp
        then show ?thesis using r Some
          by (simp add: find_words_from_root.simps[of s mx depth fr] all_ok_def give_letter_def)
      qed
    qed
  qed
next
  case (3 s mx depth node cl fr0)
  show ?case
  proof (intro impI)
    assume ag: "anagram_groups s" and root: "path_ok [] (trie s)" and pn: "path_ok cl node"
      and pi: "path_inv s T cl fr0" and ok: "all_ok s T fr0"
    let ?x = "fr0\<lparr>attempt_count := attempt_count fr0 + 1\<rparr>"
    have okx: "all_ok s T ?x" using ok by (simp add: all_ok_def)
    have pix: "path_inv s T cl ?x" using pi by (simp add: path_inv_def)
    show "all_ok s T (snd (search_trie s mx depth node cl fr0))"
    proof (cases "cap_reached mx (solutions ?x)")
      case True
      then show ?thesis using okx by (simp add: search_trie.simps[of s mx depth node cl fr0] Let_def)
    next
      case False
      obtain stopped cl1 fr1 where sc: "search_children s mx depth (children node) cl ?x = (stopped, cl1, fr1)"
        by (cases "search_children s mx depth (children node) cl ?x") auto
      have kept: "frame_kept ?x fr1"
        using search_frame(4)[of s mx depth "children node" cl ?x] sc by simp
      have pcs: "list_all (\<lambda>item. path_ok (cl @ [fst item]) (snd item)) (children node)"
        using pn by (cases node) (simp add: list_all_iff)
      have ok1: "all_ok s T fr1"
        using "3.hyps"(1)[OF refl False] ag root pcs pix okx sc by simp
      have pi1: "path_inv s T cl fr1" using pix kept by (rule path_inv_kept)
      show ?thesis
      proof (cases "\<not> stopped \<and> is_word node \<and> key node \<noteq> None \<and> key node \<noteq> Some []
                  \<and> words_for_key s (the (key node)) \<noteq> []")
        case True
        then obtain k where k: "key node = Some k" by auto
        have kcl: "k = cl" using pn k by (rule path_ok_key)
        let ?ws = "words_for_key s (the (key node))"
        let ?fr2 = "fr1\<lparr>branch_count := branch_count fr1 + 1\<rparr>"
        let ?fr3 = "search s mx (depth + 1) (?fr2\<lparr>current_words := current_words ?fr2 @ [format_slot ?ws]\<rparr>)"
        have wne: "?ws \<noteq> []" using True by simp
        have g: "?ws \<in> snd ` set (key_to_words s) \<and> mset (hd ?ws) = mset cl"
          using words_for_key_group[OF ag, of k] wne k kcl by simp
        have "path_inv s T [] (fr1\<lparr>branch_count := branch_count fr1 + 1,
                  current_words := current_words fr1 @ [format_slot ?ws]\<rparr>)"
          using pi1 wne g by (intro path_inv_word) simp_all
        then have pi2: "path_inv s T [] (?fr2\<lparr>current_words := current_words ?fr2 @ [format_slot ?ws]\<rparr>)"
          by simp
        have ok2: "all_ok s T (?fr2\<lparr>current_words := current_words ?fr2 @ [format_slot ?ws]\<rparr>)"
          using ok1 by (simp add: all_ok_def)
        have "all_ok s T ?fr3"
          using "3.hyps"(2)[OF refl False sc[symmetric] refl _ _ refl refl] True ag root pi2 ok2 by simp
        then show ?thesis using False sc True
          by (simp add: search_trie.simps[of s mx depth node cl fr0] Let_def all_ok_def)
      next
        case F2: False
        have "all_ok s T (fr1\<lparr>branch_count := branch_count fr1 + 1\<rparr>)" using ok1 by (simp add: all_ok_def)
        then show ?thesis using False sc F2 ok1
          by (auto simp: search_trie.simps[of s mx depth node cl fr0] Let_def)
      qed
    qed
  qed
next
  case (4 s mx depth cl fr)
  then show ?case by (simp add: search_children.simps)
next
  case (5 s mx depth l child rest cl fr)
  show ?case
  proof (intro impI)
    assume ag: "anagram_groups s" and root: "path_ok [] (trie s)"
      and pcs: "list_all (\<lambda>item. path_ok (cl @ [fst item]) (snd item)) ((l, child) # rest)"
      and pi: "path_inv s T cl fr" and ok: "all_ok s T fr"
    have pc: "path_ok (cl @ [l]) child" and prest: "list_all (\<lambda>item. path_ok (cl @ [fst item]) (snd item)) rest"
      using pcs by simp_all
    show "all_ok s T (snd (snd (search_children s mx depth ((l, child) # rest) cl fr)))"
    proof (cases "counter_get (remaining fr) l > 0")
      case False
      have "all_ok s T (snd (snd (search_children s mx depth rest cl fr)))"
        using "5.hyps"(3)[OF False] ag root prest pi ok by simp
      then show ?thesis using False
        by (simp add: search_children.simps(2)[of s mx depth l child rest cl fr])
    next
      case True
      obtain cl1 fr1 where st: "search_trie s mx depth child (cl @ [l]) (take_letter l fr) = (cl1, fr1)"
        by (cases "search_trie s mx depth child (cl @ [l]) (take_letter l fr)") auto
      have c1: "cl1 = cl @ [l]" and k1: "frame_kept (take_letter l fr) fr1"
        using search_frame(3)[of s mx depth child "cl @ [l]" "take_letter l fr"] st by simp_all
      have pi': "path_inv s T (cl @ [l]) (take_letter l fr)" using pi True by (rule path_inv_take)
      have ok': "all_ok s T (take_letter l fr)" using ok by (simp add: all_ok_def take_letter_def)
      have ok1: "all_ok s T fr1"
        using "5.hyps"(1)[OF True] ag root pc pi' ok' st by simp
      have k2: "frame_kept fr (give_letter l fr1)" using True k1 by (rule frame_kept_give_take)
      have pi2: "path_inv s T cl (give_letter l fr1)" using pi k2 by (rule path_inv_kept)
      have ok2: "all_ok s T (give_letter l fr1)" using ok1 by (simp add: all_ok_def give_letter_def)
      show ?thesis
      proof (cases "cap_reached mx (solutions (give_letter l fr1))")
        case T2: True
        then show ?thesis using True st ok2
          by (simp add: search_children.simps(2)[of s mx depth l child rest cl fr] Let_def)
      next
        case F2: False
        have "all_ok s T (snd (snd (search_children s mx depth rest cl (give_letter l fr1))))"
          using "5.hyps"(2)[OF True st[symmetric] refl refl F2] c1 ag root prest pi2 ok2 by simp
        then show ?thesis using True st F2 c1
          by (simp add: search_children.simps(2)[of s mx depth l child rest cl fr] Let_def)
      qed
    qed
  qed
qed

lemma anagram_groups_build: "anagram_groups (build_trie s T ew ep)"
proof -
  have "list_all (group_ok (letter_order (build_trie s T ew ep)) (set (filtered_words s T ew ep)))
     (key_to_words (build_trie s T ew ep))" by (rule key_to_words_build)
  then show ?thesis
    unfolding anagram_groups_def list_all_iff group_ok_def by (metis word_key_mset)
qed

lemma solve_pangram_solutions_ok:
  "list_all (solution_ok (build_trie s (set (case target_letters of None \<Rightarrow> default_letters | Some t \<Rightarrow> t))
                exclude_words exclude_pos)
               (mset (case target_letters of None \<Rightarrow> default_letters | Some t \<Rightarrow> t)))
     (solve_pangram s target_letters max_solutions exclude_words exclude_pos)"
proof -
  define tl where "tl = (case target_letters of None \<Rightarrow> default_letters | Some t \<Rightarrow> t)"
  define s' where "s' = build_trie s (set tl) exclude_words exclude_pos"
  have ag: "anagram_groups s'" unfolding s'_def by (rule anagram_groups_build)
  have root: "path_ok [] (trie s')" unfolding s'_def by (rule trie_build_path_ok)
  have pi: "path_inv s' (mset tl) [] (start_frame (Counter tl))"
    unfolding path_inv_def
    by (intro exI[of _ "[]"]) (simp add: start_frame_def groups_of_def letters_of_def counter_mset_Counter)
  have ok: "all_ok s' (mset tl) (start_frame (Counter tl))" by (simp add: all_ok_def start_frame_def)
  have "all_ok s' (mset tl) (search s' max_solutions 0 (start_frame (Counter tl)))"
    using search_solutions_ok(1)[of s' "mset tl" "start_frame (Counter tl)" max_solutions 0] ag root pi ok
    by simp
  then show ?thesis
    by (simp add: solve_pangram_def Let_def all_ok_def tl_def[symmetric] s'_def[symmetric])
qed

lemma representatives_letters:
  "list_all2 (\<lambda>w g. w \<in> set g) ws gs \<Longrightarrow> list_all (\<lambda>g. \<forall>w \<in> set g. mset w = mset (hd g)) gs \<Longrightarrow>
   mset (concat ws) = letters_of gs"
  by (induction ws gs rule: list_all2_induct) (simp_all add: letters_of_def)

lemma group_same_letters:
  assumes "anagram_groups s" and "g \<in> snd ` set (key_to_words s)" and "g \<noteq> []"
  shows "\<forall>w \<in> set g. mset w = mset (hd g)"
proof -
  from assms(2) obtain k where "(k, g) \<in> set (key_to_words s)" by force
  then have a: "\<forall>w \<in> set g. mset w = mset k"
    using assms(1) unfolding anagram_groups_def list_all_iff by fastforce
  moreover have "hd g \<in> set g" using assms(3) by simp
  ultimately show ?thesis by metis
qed

lemma filtered_word_kept:
  "w \<in> set (filtered_words s T ew ep) \<Longrightarrow>
   set w \<subseteq> T \<and> w \<notin> (case ew of None \<Rightarrow> {} | Some e \<Rightarrow> e)
   \<and> (case shaw_to_pos s w of None \<Rightarrow> {} | Some tags \<Rightarrow> tags) \<inter> (case ep of None \<Rightarrow> {} | Some e \<Rightarrow> e) = {}"
  unfolding filtered_words_eq keep_word_def by fastforce

lemma group_words_filtered:
  assumes "g \<in> snd ` set (key_to_words (build_trie s T ew ep))" and "w \<in> set g"
  shows "w \<in> set (filtered_words s T ew ep)"
proof -
  from assms(1) obtain k where "(k, g) \<in> set (key_to_words (build_trie s T ew ep))" by force
  then have "group_ok (letter_order (build_trie s T ew ep)) (set (filtered_words s T ew ep)) (k, g)"
    using key_to_words_build[of s T ew ep] unfolding list_all_iff by blast
  then show ?thesis using assms(2) by (simp add: group_ok_def)
qed

lemma positive_entry:
  "distinct (map fst c) \<Longrightarrow> counts_nonneg c \<Longrightarrow> any_values c \<Longrightarrow>
   \<exists>l \<in> set (map fst c). counter_get c l > 0"
proof (induction c)
  case Nil
  then show ?case by (simp add: any_values_def)
next
  case (Cons a c)
  obtain k v where a: "a = (k, v)" by (cases a)
  have v: "0 \<le> v" and nn: "counts_nonneg c" using Cons.prems(2) a by (simp_all add: counts_nonneg_def)
  show ?case
  proof (cases "v = 0")
    case False
    then have "counter_get (a # c) k > 0" using v a by simp
    then show ?thesis using a by auto
  next
    case True
    then have "any_values c" using Cons.prems(3) a by (simp add: any_values_def)
    with Cons.IH nn Cons.prems(1) obtain l where l: "l \<in> set (map fst c)" "counter_get c l > 0" by auto
    then have "l \<noteq> k" using Cons.prems(1) a by auto
    then have "counter_get (a # c) l > 0" using l(2) a by simp
    then show ?thesis using l(1) by auto
  qed
qed

lemma rarest_letter_None_iff:
  "(rarest_letter s rem = None) = list_all (\<lambda>l. counter_get rem l \<le> 0) (letter_order s)"
  by (auto simp: rarest_letter_def find_None_iff list_all_iff not_less)

lemma reach_find_from_search:
  assumes "(calls s mx)\<^sup>*\<^sup>* (Search d0 fr0) (FindWordsFromRoot d fr)"
  shows "any_values (remaining fr)"
proof -
  from assms have "Search d0 fr0 = FindWordsFromRoot d fr \<or> (\<exists>b. calls s mx b (FindWordsFromRoot d fr))"
    by (auto elim: rtranclp.cases)
  then obtain b where "calls s mx b (FindWordsFromRoot d fr)" by auto
  then show ?thesis by (cases rule: calls.cases) simp_all
qed

section \<open>Lemmas: What load\_words loads\<close>

lemma load_entry_words:
  "fst (load_entry e acc) = fst acc @ (if entry_word e \<noteq> [] then [entry_word e] else [])"
  by (cases acc) (simp add: load_entry_def entry_word_def Let_def)

lemma load_entries_words:
  "fst (load_entries es acc) = fst acc @ filter (\<lambda>w. w \<noteq> []) (map entry_word es)"
  by (induction es arbitrary: acc) (simp_all add: load_entry_words)

lemma load_items_words:
  "fst (load_items items acc)
     = fst acc @ concat (map (\<lambda>item. filter (\<lambda>w. w \<noteq> []) (map entry_word (snd item))) items)"
proof (induction items arbitrary: acc)
  case Nil
  then show ?case by simp
next
  case (Cons a items)
  obtain k es where a: "a = (k, es)" by (cases a)
  show ?case using Cons[of "load_entries es acc"] a by (simp add: load_entries_words)
qed

section \<open>Lemmas: main: target letters and starter words\<close>

lemma count_counter_mset:
  "distinct (map fst c) \<Longrightarrow> count (counter_mset c) l = nat (counter_get c l)"
proof (induction c)
  case Nil
  then show ?case by (simp add: counter_mset_def)
next
  case (Cons a c)
  obtain k v where a: "a = (k, v)" by (cases a)
  show ?case
  proof (cases "k = l")
    case True
    then have "l \<notin> fst ` set c" using Cons.prems a by auto
    then have "counter_get c l = 0" by (induction c) auto
    then show ?thesis using Cons a True by (simp add: counter_mset_def)
  next
    case False
    then show ?thesis using Cons a by (simp add: counter_mset_def)
  qed
qed

lemma counter_mset_take_diff:
  "counter_get c l > 0 \<Longrightarrow> counter_mset (counter_add c l (- 1)) = counter_mset c - {#l#}"
  using counter_mset_take[of c l] by (metis add_mset_remove_trivial)

lemma member_counter_mset:
  "distinct (map fst c) \<Longrightarrow> (l \<in># counter_mset c) = (counter_get c l > 0)"
  using count_counter_mset[of c l] by (simp add: count_greater_zero_iff[symmetric] del: count_greater_zero_iff)

lemma remove_starters_ok:
  "distinct (map fst c) \<Longrightarrow> mset ls \<subseteq># counter_mset c \<Longrightarrow>
   \<exists>c'. remove_starters c ls = Inr c' \<and> counter_mset c' = counter_mset c - mset ls"
proof (induction ls arbitrary: c)
  case Nil
  then show ?case by simp
next
  case (Cons l ls)
  have lin: "l \<in># counter_mset c" and sub: "mset ls \<subseteq># counter_mset c - {#l#}"
    using Cons.prems(2) by (simp_all add: insert_subset_eq_iff)
  have pos: "counter_get c l > 0" using lin Cons.prems(1) by (simp add: member_counter_mset)
  have d: "distinct (map fst (counter_add c l (- 1)))" using Cons.prems(1) pos by (simp add: keys_take)
  have m: "counter_mset (counter_add c l (- 1)) = counter_mset c - {#l#}"
    using pos by (rule counter_mset_take_diff)
  from Cons.IH[OF d] sub m obtain c' where
    "remove_starters (counter_add c l (- 1)) ls = Inr c'"
    "counter_mset c' = counter_mset c - {#l#} - mset ls" by auto
  then show ?case using pos by simp
qed

lemma remove_starters_fails:
  "distinct (map fst c) \<Longrightarrow> \<not> mset ls \<subseteq># counter_mset c \<Longrightarrow>
   remove_starters c ls = Inl (SystemExit 1)"
proof (induction ls arbitrary: c)
  case Nil
  then show ?case by simp
next
  case (Cons l ls)
  show ?case
  proof (cases "counter_get c l > 0")
    case True
    have lin: "l \<in># counter_mset c" using True Cons.prems(1) by (simp add: member_counter_mset)
    have d: "distinct (map fst (counter_add c l (- 1)))" using Cons.prems(1) True by (simp add: keys_take)
    have m: "counter_mset (counter_add c l (- 1)) = counter_mset c - {#l#}"
      using True by (rule counter_mset_take_diff)
    have "\<not> mset ls \<subseteq># counter_mset c - {#l#}"
      using Cons.prems(2) lin by (simp add: insert_subset_eq_iff)
    then have "remove_starters (counter_add c l (- 1)) ls = Inl (SystemExit 1)"
      using Cons.IH[OF d] m by simp
    then show ?thesis using True by simp
  next
    case False
    then show ?thesis by simp
  qed
qed

lemma mset_rebuild_letters: "mset (rebuild_letters c) = counter_mset c"
  by (induction c) (auto simp: rebuild_letters_def counter_mset_def)

section \<open>Lemmas: Where a recorded solution comes from\<close>

lemma recorded_trans:
  "frame_kept a b \<Longrightarrow> frame_kept b c \<Longrightarrow> recorded a c = recorded a b \<union> recorded b c"
  by (auto simp: frame_kept_def recorded_def)

lemma recorded_same: "solutions b = solutions a \<Longrightarrow> recorded a b = {}"
  by (simp add: recorded_def)

lemma recorded_cong:
  "solutions a' = solutions a \<Longrightarrow> solutions b' = solutions b \<Longrightarrow> recorded a' b' = recorded a b"
  by (simp add: recorded_def)

lemma from_zero_empty: "from_zero s mx c {}"
  by (simp add: from_zero_def)

lemma from_zero_union: "from_zero s mx c A \<Longrightarrow> from_zero s mx c B \<Longrightarrow> from_zero s mx c (A \<union> B)"
  unfolding from_zero_def by blast

lemma from_zero_step: "calls s mx c c' \<Longrightarrow> from_zero s mx c' A \<Longrightarrow> from_zero s mx c A"
  unfolding from_zero_def by (meson converse_rtranclp_into_rtranclp)

lemma search_recorded:
  "from_zero s mx (Search depth fr) (recorded fr (search s mx depth fr))"
  "from_zero s mx (FindWordsFromRoot depth fr) (recorded fr (find_words_from_root s mx depth fr))"
  "from_zero s mx (SearchTrie depth node cl fr) (recorded fr (snd (search_trie s mx depth node cl fr)))"
  "from_zero s mx (ChildrenLoop depth cs cl fr) (recorded fr (snd (snd (search_children s mx depth cs cl fr))))"
proof (induct s mx depth fr and s mx depth fr and s mx depth node cl fr and s mx depth cs cl fr
    rule: search_find_words_from_root_search_trie_search_children.induct)
  case (1 s mx depth fr)
  show ?case
  proof (cases "cap_reached mx (solutions fr)")
    case True
    then show ?thesis by (simp add: search.simps[of s mx depth fr] recorded_same from_zero_empty)
  next
    case False
    show ?thesis
    proof (cases "any_values (remaining fr)")
      case F2: False
      have "recorded fr (search s mx depth fr) = {current_words fr}"
        using False F2 by (simp add: search.simps[of s mx depth fr] recorded_def)
      moreover have "from_zero s mx (Search depth fr) {current_words fr}"
        unfolding from_zero_def using F2 by blast
      ultimately show ?thesis by simp
    next
      case True
      show ?thesis
      proof (cases "sum_values (remaining fr) \<le> 0")
        case T3: True
        then show ?thesis using False True
          by (simp add: search.simps[of s mx depth fr] recorded_same from_zero_empty)
      next
        case F3: False
        have c: "calls s mx (Search depth fr) (FindWordsFromRoot depth fr)"
          using False True F3 by (rule search_find)
        have "from_zero s mx (FindWordsFromRoot depth fr) (recorded fr (find_words_from_root s mx depth fr))"
          using "1.hyps"[OF False _ F3] True by simp
        with c have "from_zero s mx (Search depth fr) (recorded fr (find_words_from_root s mx depth fr))"
          by (rule from_zero_step)
        then show ?thesis using False True F3 by (simp add: search.simps[of s mx depth fr])
      qed
    qed
  qed
next
  case (2 s mx depth fr)
  show ?case
  proof (cases "rarest_letter s (remaining fr)")
    case None
    then show ?thesis
      by (simp add: find_words_from_root.simps[of s mx depth fr] recorded_same from_zero_empty)
  next
    case (Some rarest)
    note r = this
    show ?thesis
    proof (cases "map_of (children (trie s)) rarest")
      case None
      then show ?thesis using r
        by (simp add: find_words_from_root.simps[of s mx depth fr] recorded_same from_zero_empty)
    next
      case (Some child)
      let ?res = "snd (search_trie s mx depth child [rarest] (take_letter rarest fr))"
      have c: "calls s mx (FindWordsFromRoot depth fr) (SearchTrie depth child [rarest] (take_letter rarest fr))"
        using r Some by (rule find_trie)
      have "from_zero s mx (SearchTrie depth child [rarest] (take_letter rarest fr))
              (recorded (take_letter rarest fr) ?res)"
        using "2.hyps"[OF r Some] by simp
      with c have "from_zero s mx (FindWordsFromRoot depth fr) (recorded (take_letter rarest fr) ?res)"
        by (rule from_zero_step)
      moreover have "recorded fr (give_letter rarest ?res) = recorded (take_letter rarest fr) ?res"
        by (rule recorded_cong) (simp_all add: take_letter_def give_letter_def)
      ultimately show ?thesis using r Some
        by (simp add: find_words_from_root.simps[of s mx depth fr])
    qed
  qed
next
  case (3 s mx depth node cl fr0)
  let ?x = "fr0\<lparr>attempt_count := attempt_count fr0 + 1\<rparr>"
  let ?c0 = "SearchTrie depth node cl fr0"
  show ?case
  proof (cases "cap_reached mx (solutions ?x)")
    case True
    then show ?thesis
      by (simp add: search_trie.simps[of s mx depth node cl fr0] Let_def recorded_same from_zero_empty)
  next
    case False
    obtain stopped cl1 fr1 where sc: "search_children s mx depth (children node) cl ?x = (stopped, cl1, fr1)"
      by (cases "search_children s mx depth (children node) cl ?x") auto
    have kept: "frame_kept ?x fr1"
      using search_frame(4)[of s mx depth "children node" cl ?x] sc by simp
    have c1: "calls s mx ?c0 (ChildrenLoop depth (children node) cl ?x)"
      using refl False by (rule trie_loop)
    have "from_zero s mx (ChildrenLoop depth (children node) cl ?x) (recorded ?x fr1)"
      using "3.hyps"(1)[OF refl False] sc by simp
    with c1 have "from_zero s mx ?c0 (recorded ?x fr1)" by (rule from_zero_step)
    moreover have "recorded fr0 fr1 = recorded ?x fr1" by (rule recorded_cong) simp_all
    ultimately have z1: "from_zero s mx ?c0 (recorded fr0 fr1)" by simp
    have k01: "frame_kept fr0 fr1" using kept by (simp add: frame_kept_def)
    show ?thesis
    proof (cases "\<not> stopped \<and> is_word node \<and> key node \<noteq> None \<and> key node \<noteq> Some []
                \<and> words_for_key s (the (key node)) \<noteq> []")
      case True
      then obtain k where k: "key node = Some k" "k \<noteq> []" "words_for_key s k \<noteq> []" by auto
      let ?fr2 = "fr1\<lparr>branch_count := branch_count fr1 + 1\<rparr>"
      let ?in = "?fr2\<lparr>current_words := current_words ?fr2 @ [format_slot (words_for_key s k)]\<rparr>"
      let ?fr3 = "search s mx (depth + 1) ?in"
      let ?out = "?fr3\<lparr>current_words := butlast (current_words ?fr3)\<rparr>"
      have st: "stopped = False" using True by simp
      have c2: "calls s mx ?c0 (Search (depth + 1) ?in)"
        using refl False sc[unfolded st] _ k(1,2) refl k(3) by (rule trie_search) (use True in simp)
      have "from_zero s mx (Search (depth + 1) ?in) (recorded ?in ?fr3)"
        using "3.hyps"(2)[OF refl False sc[symmetric] refl _ _ refl refl] True k by simp
      with c2 have z2: "from_zero s mx ?c0 (recorded ?in ?fr3)" by (rule from_zero_step)
      have k3: "frame_kept ?in ?fr3" by (rule search_frame(1))
      have "recorded fr0 ?out = recorded fr0 fr1 \<union> recorded ?in ?fr3"
      proof -
        have "frame_kept fr1 ?out" using k3 by (auto simp: frame_kept_def)
        with k01 have "recorded fr0 ?out = recorded fr0 fr1 \<union> recorded fr1 ?out" by (rule recorded_trans)
        moreover have "recorded fr1 ?out = recorded ?in ?fr3" by (rule recorded_cong) simp_all
        ultimately show ?thesis by simp
      qed
      then have "from_zero s mx ?c0 (recorded fr0 ?out)" using z1 z2 by (simp add: from_zero_union)
      moreover have "snd (search_trie s mx depth node cl fr0) = ?out"
        using False sc True k by (simp add: search_trie.simps[of s mx depth node cl fr0] Let_def)
      ultimately show ?thesis by simp
    next
      case F2: False
      have "recorded fr0 (fr1\<lparr>branch_count := branch_count fr1 + 1\<rparr>) = recorded fr0 fr1"
        by (rule recorded_cong) simp_all
      then show ?thesis using False sc F2 z1
        by (auto simp: search_trie.simps[of s mx depth node cl fr0] Let_def)
    qed
  qed
next
  case (4 s mx depth cl fr)
  then show ?case by (simp add: search_children.simps recorded_same from_zero_empty)
next
  case (5 s mx depth l child rest cl fr)
  let ?c0 = "ChildrenLoop depth ((l, child) # rest) cl fr"
  show ?case
  proof (cases "counter_get (remaining fr) l > 0")
    case False
    have c: "calls s mx ?c0 (ChildrenLoop depth rest cl fr)" using False by (rule loop_skip)
    have "from_zero s mx (ChildrenLoop depth rest cl fr)
            (recorded fr (snd (snd (search_children s mx depth rest cl fr))))"
      using "5.hyps"(3)[OF False] by simp
    with c have "from_zero s mx ?c0 (recorded fr (snd (snd (search_children s mx depth rest cl fr))))"
      by (rule from_zero_step)
    then show ?thesis using False
      by (simp add: search_children.simps(2)[of s mx depth l child rest cl fr])
  next
    case True
    obtain cl1 fr1 where st: "search_trie s mx depth child (cl @ [l]) (take_letter l fr) = (cl1, fr1)"
      by (cases "search_trie s mx depth child (cl @ [l]) (take_letter l fr)") auto
    let ?fr2 = "give_letter l fr1"
    have cl1: "cl1 = cl @ [l]" and k1: "frame_kept (take_letter l fr) fr1"
      using search_frame(3)[of s mx depth child "cl @ [l]" "take_letter l fr"] st by simp_all
    have k2: "frame_kept fr ?fr2" using True k1 by (rule frame_kept_give_take)
    have c1: "calls s mx ?c0 (SearchTrie depth child (cl @ [l]) (take_letter l fr))"
      using True by (rule loop_trie)
    have "from_zero s mx (SearchTrie depth child (cl @ [l]) (take_letter l fr))
            (recorded (take_letter l fr) fr1)"
      using "5.hyps"(1)[OF True] st by simp
    with c1 have "from_zero s mx ?c0 (recorded (take_letter l fr) fr1)" by (rule from_zero_step)
    moreover have "recorded fr ?fr2 = recorded (take_letter l fr) fr1"
      by (rule recorded_cong) (simp_all add: take_letter_def give_letter_def)
    ultimately have z1: "from_zero s mx ?c0 (recorded fr ?fr2)" by simp
    show ?thesis
    proof (cases "cap_reached mx (solutions ?fr2)")
      case T2: True
      then show ?thesis using True st z1
        by (simp add: search_children.simps(2)[of s mx depth l child rest cl fr] Let_def)
    next
      case F2: False
      let ?res = "snd (snd (search_children s mx depth rest cl ?fr2))"
      have c2: "calls s mx ?c0 (ChildrenLoop depth rest (butlast cl1) ?fr2)"
        using True st refl F2 by (rule loop_next)
      have "from_zero s mx (ChildrenLoop depth rest (butlast cl1) ?fr2) (recorded ?fr2 ?res)"
        using "5.hyps"(2)[OF True st[symmetric] refl refl F2] cl1 by simp
      with c2 have z2: "from_zero s mx ?c0 (recorded ?fr2 ?res)" by (rule from_zero_step)
      have "frame_kept ?fr2 ?res" using search_frame(4)[of s mx depth rest cl ?fr2] by simp
      with k2 have "recorded fr ?res = recorded fr ?fr2 \<union> recorded ?fr2 ?res" by (rule recorded_trans)
      then have "from_zero s mx ?c0 (recorded fr ?res)" using z1 z2 by (simp add: from_zero_union)
      then show ?thesis using True st F2 cl1
        by (simp add: search_children.simps(2)[of s mx depth l child rest cl fr] Let_def)
    qed
  qed
qed

lemma solve_pangram_member:
  assumes "sol \<in> set (solve_pangram s target_letters max_solutions exclude_words exclude_pos)"
  shows "sol \<in> set (solutions (search
            (build_trie s (set (case target_letters of None \<Rightarrow> default_letters | Some t \<Rightarrow> t))
               exclude_words exclude_pos) max_solutions 0
            (start_frame (Counter (case target_letters of None \<Rightarrow> default_letters | Some t \<Rightarrow> t)))))"
  using assms by (simp add: solve_pangram_def Let_def split: if_splits)

lemma solve_pangram_recorded_at_zero:
  assumes "sol \<in> set (solve_pangram s target_letters max_solutions exclude_words exclude_pos)"
  shows "\<exists>d fr. (calls (build_trie s (set (case target_letters of None \<Rightarrow> default_letters | Some t \<Rightarrow> t))
                      exclude_words exclude_pos) max_solutions)\<^sup>*\<^sup>*
                 (Search 0 (start_frame (Counter (case target_letters of None \<Rightarrow> default_letters | Some t \<Rightarrow> t))))
                 (Search d fr)
              \<and> \<not> any_values (remaining fr) \<and> current_words fr = sol"
proof -
  let ?tl = "case target_letters of None \<Rightarrow> default_letters | Some t \<Rightarrow> t"
  let ?s' = "build_trie s (set ?tl) exclude_words exclude_pos"
  let ?F = "start_frame (Counter ?tl)"
  have "sol \<in> set (solutions (search ?s' max_solutions 0 ?F))"
    using assms by (rule solve_pangram_member)
  moreover have "recorded ?F (search ?s' max_solutions 0 ?F) = set (solutions (search ?s' max_solutions 0 ?F))"
    by (simp add: recorded_def start_frame_def)
  ultimately have "sol \<in> recorded ?F (search ?s' max_solutions 0 ?F)" by simp
  moreover have "from_zero ?s' max_solutions (Search 0 ?F) (recorded ?F (search ?s' max_solutions 0 ?F))"
    by (rule search_recorded(1))
  ultimately show ?thesis unfolding from_zero_def by blast
qed

lemma search_records_at_zero:
  "\<not> cap_reached mx (solutions fr) \<Longrightarrow> \<not> any_values (remaining fr) \<Longrightarrow>
   solutions (search s mx d fr) = solutions fr @ [current_words fr]"
  by (simp add: search.simps[of s mx d fr])

text \<open>
  Where the scan of \<open>_find_words_from_root\<close> does find a letter: on a search whose target
  letters all occur in \<open>letter_order\<close>, at every call that is reached.
\<close>

lemma rarest_letter_found_if_covered:
  assumes sub: "set target_letters \<subseteq> set (letter_order s)"
    and r: "(calls s mx)\<^sup>*\<^sup>* (Search 0 (start_frame (Counter target_letters))) (FindWordsFromRoot d fr)"
  shows "rarest_letter s (remaining fr) \<noteq> None"
proof -
  have "rem_inv (Counter target_letters)
          (remaining (call_frame (Search 0 (start_frame (Counter target_letters)))))"
    by (simp add: rem_inv_def start_frame_def counts_nonneg_Counter)
  with r have "rem_inv (Counter target_letters) (remaining (call_frame (FindWordsFromRoot d fr)))"
    by (rule reach_rem_inv)
  then have keys: "map fst (remaining fr) = map fst (Counter target_letters)"
    and nn: "counts_nonneg (remaining fr)" by (simp_all add: rem_inv_def)
  have d: "distinct (map fst (remaining fr))" using keys Counter_distinct by simp
  have "any_values (remaining fr)" using r by (rule reach_find_from_search)
  with d nn obtain l where l: "l \<in> set (map fst (remaining fr))" "counter_get (remaining fr) l > 0"
    using positive_entry by blast
  have "l \<in> set target_letters" using l(1) keys Counter_keys[of target_letters] by simp
  then have "l \<in> set (letter_order s)" using sub by blast
  moreover have "\<not> counter_get (remaining fr) l \<le> 0" using l(2) by simp
  ultimately have "\<not> list_all (\<lambda>l. counter_get (remaining fr) l \<le> 0) (letter_order s)"
    unfolding list_all_iff by blast
  then show ?thesis by (simp add: rarest_letter_None_iff)
qed

section \<open>Properties\<close>

text \<open>
  C1. Every solution that \<open>solve_pangram\<close> returns is a list of slots, each slot the
  formatted form of a non-empty group of \<open>key_to_words\<close>, and whichever word is picked
  from each group, the letters of the picked words, counted with multiplicity, are
  exactly the target letters. The solution is the path \<open>current_words\<close> of a call of
  \<open>_search\<close>, reached from the top-level call, at whose entry no count of \<open>remaining\<close>
  is non-zero; and a call of \<open>_search\<close> that is entered below the cap with no non-zero
  count appends its path and nothing else. The proof carries the invariant \<open>path_inv\<close>
  through the search: each decrement of \<open>remaining\<close> adds one letter to the current trie
  path, and the path at a terminal node is the key of the group chosen there.
\<close>

theorem solutions_exhaust_target:
  assumes "sol \<in> set (solve_pangram s target_letters max_solutions exclude_words exclude_pos)"
  shows "(\<exists>gs. sol = map format_slot gs
           \<and> list_all (\<lambda>g. g \<noteq> [] \<and> g \<in> snd ` set (key_to_words
                 (build_trie s (set (case target_letters of None \<Rightarrow> default_letters | Some t \<Rightarrow> t))
                    exclude_words exclude_pos))) gs
           \<and> (\<forall>ws. list_all2 (\<lambda>w g. w \<in> set g) ws gs \<longrightarrow>
                 mset (concat ws) = mset (case target_letters of None \<Rightarrow> default_letters | Some t \<Rightarrow> t)))
       \<and> (\<exists>d fr. (calls (build_trie s (set (case target_letters of None \<Rightarrow> default_letters | Some t \<Rightarrow> t))
                      exclude_words exclude_pos) max_solutions)\<^sup>*\<^sup>*
                 (Search 0 (start_frame (Counter (case target_letters of None \<Rightarrow> default_letters | Some t \<Rightarrow> t))))
                 (Search d fr)
              \<and> \<not> any_values (remaining fr) \<and> current_words fr = sol)
       \<and> (\<not> cap_reached mx (solutions fr0) \<longrightarrow> \<not> any_values (remaining fr0) \<longrightarrow>
            solutions (search s0 mx d0 fr0) = solutions fr0 @ [current_words fr0])"
proof -
  define tl where "tl = (case target_letters of None \<Rightarrow> default_letters | Some t \<Rightarrow> t)"
  define s' where "s' = build_trie s (set tl) exclude_words exclude_pos"
  have "solution_ok s' (mset tl) sol"
    using solve_pangram_solutions_ok[of s target_letters exclude_words exclude_pos max_solutions] assms
    unfolding list_all_iff tl_def s'_def by blast
  then obtain gs where gs: "sol = map format_slot gs" "groups_of s' gs" "letters_of gs = mset tl"
    unfolding solution_ok_def by blast
  have ag: "anagram_groups s'" unfolding s'_def by (rule anagram_groups_build)
  have same: "list_all (\<lambda>g. \<forall>w \<in> set g. mset w = mset (hd g)) gs"
    using gs(2) group_same_letters[OF ag] unfolding groups_of_def list_all_iff by blast
  have "\<forall>ws. list_all2 (\<lambda>w g. w \<in> set g) ws gs \<longrightarrow> mset (concat ws) = mset tl"
    using representatives_letters[OF _ same] gs(3) by simp
  moreover have "list_all (\<lambda>g. g \<noteq> [] \<and> g \<in> snd ` set (key_to_words s')) gs"
    using gs(2) unfolding groups_of_def by simp
  ultimately have 1: "\<exists>gs. sol = map format_slot gs
           \<and> list_all (\<lambda>g. g \<noteq> [] \<and> g \<in> snd ` set (key_to_words s')) gs
           \<and> (\<forall>ws. list_all2 (\<lambda>w g. w \<in> set g) ws gs \<longrightarrow> mset (concat ws) = mset tl)"
    using gs(1) by blast
  have 2: "\<exists>d fr. (calls s' max_solutions)\<^sup>*\<^sup>* (Search 0 (start_frame (Counter tl))) (Search d fr)
              \<and> \<not> any_values (remaining fr) \<and> current_words fr = sol"
    unfolding tl_def s'_def using assms by (rule solve_pangram_recorded_at_zero)
  have 3: "\<not> cap_reached mx (solutions fr0) \<longrightarrow> \<not> any_values (remaining fr0) \<longrightarrow>
            solutions (search s0 mx d0 fr0) = solutions fr0 @ [current_words fr0]"
    by (simp add: search_records_at_zero)
  show ?thesis using 1 2 3 unfolding tl_def s'_def by (intro conjI)
qed

theorem solutions_exhaust_target_witness:
  "[ustr ''c'', ustr ''[ab / ba]''] \<in> set (solve_pangram example_anagrams (Some (ustr ''abc'')) None None None)
   \<and> (\<exists>gs. [ustr ''c'', ustr ''[ab / ba]''] = map format_slot gs
         \<and> list_all (\<lambda>g. g \<noteq> [] \<and> g \<in> snd ` set (key_to_words (build_trie example_anagrams (set (ustr ''abc'')) None None))) gs
         \<and> (\<forall>ws. list_all2 (\<lambda>w g. w \<in> set g) ws gs \<longrightarrow> mset (concat ws) = mset (ustr ''abc'')))
   \<and> (\<exists>d fr. (calls (build_trie example_anagrams (set (ustr ''abc'')) None None) None)\<^sup>*\<^sup>*
                 (Search 0 (start_frame (Counter (ustr ''abc'')))) (Search d fr)
              \<and> \<not> any_values (remaining fr) \<and> current_words fr = [ustr ''c'', ustr ''[ab / ba]''])
   \<and> \<not> cap_reached None (solutions (start_frame []))
   \<and> \<not> any_values (remaining (start_frame []))
   \<and> solutions (search example_ab None 0 (start_frame [])) = [[]]"
proof -
  have m: "[ustr ''c'', ustr ''[ab / ba]''] \<in> set (solve_pangram example_anagrams (Some (ustr ''abc'')) None None None)"
    by code_simp
  have c: "\<not> cap_reached None (solutions (start_frame []))" by (simp add: cap_reached_def)
  have z: "\<not> any_values (remaining (start_frame []))" by (simp add: any_values_def start_frame_def)
  from solutions_exhaust_target[OF m, of None "start_frame []" example_ab 0] m c z show ?thesis
    by (simp add: start_frame_def)
qed

text \<open>
  C2. The claim is what the comment in \<open>_find_words_from_root\<close> says of the scan of
  \<open>letter_order\<close>: the rarest remaining letter is
  \<open>guaranteed to exist due to check in _search\<close>. The code does not establish it.
  \<open>letter_order\<close> holds the letters of the filtered words, while \<open>remaining\<close> starts as the counter of the target letters, and the
  check in \<open>_search\<close> only tells that some count is non-zero; a target letter that occurs
  in no filtered word is in \<open>remaining\<close> and never in \<open>letter_order\<close>. With the lexicon
  \<open>a\<close> and the target \<open>az\<close>, the trie is not empty, the search chooses \<open>a\<close> and then
  enters \<open>_find_words_from_root\<close> with \<open>remaining = {a: 0, z: 1}\<close>: the counter is not
  all zero, and the scan of \<open>letter_order = [a]\<close> ends with no letter found.
\<close>

theorem rarest_letter_not_found:
  "(calls example_az None)\<^sup>*\<^sup>* (Search 0 (start_frame (Counter (ustr ''az''))))
      (FindWordsFromRoot 1 stuck_frame)
   \<and> any_values (remaining stuck_frame)
   \<and> rarest_letter example_az (remaining stuck_frame) = None
   \<and> children (trie example_az) \<noteq> []"
proof -
  let ?F0 = "start_frame (Counter (ustr ''az''))"
  let ?T0 = "take_letter 97 ?F0"
  let ?T1 = "?T0\<lparr>attempt_count := attempt_count ?T0 + 1\<rparr>"
  let ?T2 = "?T1\<lparr>branch_count := branch_count ?T1 + 1\<rparr>"
  let ?na = "TrieNode [] True (Some [97])"
  have 1: "calls example_az None (Search 0 ?F0) (FindWordsFromRoot 0 ?F0)"
    by (rule search_find) code_simp+
  have r: "rarest_letter example_az (remaining ?F0) = Some 97" by code_simp
  have m: "map_of (children (trie example_az)) 97 = Some ?na" by code_simp
  have 2: "calls example_az None (FindWordsFromRoot 0 ?F0) (SearchTrie 0 ?na [97] ?T0)"
    by (rule find_trie[OF r m])
  have w: "words_for_key example_az [97] = [[97]]" by code_simp
  have 3: "calls example_az None (SearchTrie 0 ?na [97] ?T0)
             (Search (0 + 1) (?T2\<lparr>current_words := current_words ?T2 @ [format_slot (words_for_key example_az [97])]\<rparr>))"
  proof (rule trie_search[where fr = ?T1 and ?cl1.0 = "[97]" and ?fr1.0 = ?T1 and k = "[97]"])
    show "\<not> cap_reached None (solutions ?T1)" by (simp add: cap_reached_def)
    show "search_children example_az None 0 (children ?na) [97] ?T1 = (False, [97], ?T1)"
      by (simp add: search_children.simps)
    show "words_for_key example_az [97] \<noteq> []" by (simp add: w)
  qed simp_all
  have c: "counter_add (Counter (ustr ''az'')) 97 (- 1) = [(97, 0), (122, 1)]" by code_simp
  have u: "ustr ''a'' = [97]" by code_simp
  have e: "?T2\<lparr>current_words := current_words ?T2 @ [format_slot (words_for_key example_az [97])]\<rparr> = stuck_frame"
    by (simp add: w c u format_slot_def stuck_frame_def take_letter_def start_frame_def)
  have s3: "calls example_az None (SearchTrie 0 ?na [97] ?T0) (Search 1 stuck_frame)"
    using 3 unfolding e by simp
  have 4: "calls example_az None (Search 1 stuck_frame) (FindWordsFromRoot 1 stuck_frame)"
    by (rule search_find) code_simp+
  have reach: "(calls example_az None)\<^sup>*\<^sup>* (Search 0 ?F0) (FindWordsFromRoot 1 stuck_frame)"
    using 1 2 s3 4 by (meson rtranclp.rtrancl_into_rtrancl rtranclp.rtrancl_refl)
  have a: "any_values (remaining stuck_frame)" by code_simp
  have n: "rarest_letter example_az (remaining stuck_frame) = None" by code_simp
  have t: "children (trie example_az) \<noteq> []" by code_simp
  show ?thesis using reach a n t by simp
qed

text \<open>
  C3. A run with \<open>max_solutions = k\<close> returns the first \<open>k\<close> solutions of the run with
  \<open>max_solutions = None\<close> on the same inputs, in the same order, and all of them when
  there are fewer than \<open>k\<close> (for \<open>k \<le> 0\<close> the capped run returns none). That two runs on
  identical inputs return identical sequences holds because \<open>solve_pangram\<close> is a
  function of its inputs: nothing in it reads a clock, a random source or the hash order
  of a set.
\<close>

theorem solve_pangram_cap_is_prefix:
  "solve_pangram s target_letters (Some k) exclude_words exclude_pos
     = take (nat k) (solve_pangram s target_letters None exclude_words exclude_pos)"
proof -
  define tl where "tl = (case target_letters of None \<Rightarrow> default_letters | Some t \<Rightarrow> t)"
  define s' where "s' = build_trie s (set tl) exclude_words exclude_pos"
  have "capped_like k (start_frame (Counter tl)) (start_frame (Counter tl))"
    by (simp add: capped_like_def start_frame_def)
  with search_capped(1)[of None k "start_frame (Counter tl)" s' 0]
  have "capped_like k (search s' (Some k) 0 (start_frame (Counter tl)))
          (search s' None 0 (start_frame (Counter tl)))"
    by simp
  then have "solutions (search s' (Some k) 0 (start_frame (Counter tl)))
      = take (nat k) (solutions (search s' None 0 (start_frame (Counter tl))))"
    by (simp add: capped_like_def)
  then show ?thesis
    by (simp add: solve_pangram_def Let_def tl_def s'_def)
qed

text \<open>
  C4, as the spec states it, fails: an entry without the word field does not make the load
  fail. \<open>entry.get('Shaw', '')\<close> gives the empty string for it and the entry is skipped;
  the other entries are loaded.
\<close>

theorem load_words_skips_entries_without_word:
  "load_words (Json [(ustr ''k'', [\<lparr>Shaw = None, pos = Some (ustr ''n'')\<rparr>, word_entry ''ab''])])
     = Inr ([ustr ''ab''], [ustr ''ab'' \<mapsto> {}])"
proof -
  have u: "ustr ''ab'' \<noteq> []" by (simp add: ustr_def)
  show ?thesis by (simp add: load_words_def load_entry_def word_entry_def Let_def u)
qed

text \<open>
  C4, amended. Loading fails when the file cannot be read or is not JSON (the exception of
  \<open>open\<close> or \<open>json.load\<close> is not caught). A source of the documented shape always
  loads, and the words loaded are the non-empty word fields in the order of the file: an
  entry with no word field, or with an empty one, is skipped.
\<close>

theorem load_words_result:
  "load_words Unreadable = Inl OSError
   \<and> load_words NotJson = Inl JSONDecodeError
   \<and> (\<exists>stp. load_words (Json data)
          = Inr (concat (map (\<lambda>item. filter (\<lambda>w. w \<noteq> []) (map entry_word (snd item))) data), stp))"
proof -
  have "fst (load_items data ([], Map.empty))
      = concat (map (\<lambda>item. filter (\<lambda>w. w \<noteq> []) (map entry_word (snd item))) data)"
    by (simp add: load_items_words)
  then have "\<exists>stp. load_items data ([], Map.empty)
      = (concat (map (\<lambda>item. filter (\<lambda>w. w \<noteq> []) (map entry_word (snd item))) data), stp)"
    by (metis prod.collapse)
  then show ?thesis by (simp add: load_words_def)
qed

text \<open>
  C5. Every word in a slot of a returned solution uses letters of the target only, is not
  in \<open>exclude_words\<close>, and has no tag in \<open>exclude_pos\<close>.
\<close>

theorem solution_words_pass_filter:
  assumes "sol \<in> set (solve_pangram s target_letters max_solutions exclude_words exclude_pos)"
  shows "\<exists>gs. sol = map format_slot gs
           \<and> list_all (\<lambda>g. g \<noteq> [] \<and> g \<in> snd ` set (key_to_words
                 (build_trie s (set (case target_letters of None \<Rightarrow> default_letters | Some t \<Rightarrow> t))
                    exclude_words exclude_pos))) gs
           \<and> (\<forall>g \<in> set gs. \<forall>w \<in> set g.
                 set w \<subseteq> set (case target_letters of None \<Rightarrow> default_letters | Some t \<Rightarrow> t)
                 \<and> w \<notin> (case exclude_words of None \<Rightarrow> {} | Some e \<Rightarrow> e)
                 \<and> (case shaw_to_pos s w of None \<Rightarrow> {} | Some tags \<Rightarrow> tags)
                      \<inter> (case exclude_pos of None \<Rightarrow> {} | Some e \<Rightarrow> e) = {})"
proof -
  let ?tl = "case target_letters of None \<Rightarrow> default_letters | Some t \<Rightarrow> t"
  let ?s' = "build_trie s (set ?tl) exclude_words exclude_pos"
  have "solution_ok ?s' (mset ?tl) sol"
    using solve_pangram_solutions_ok[of s target_letters exclude_words exclude_pos max_solutions] assms
    unfolding list_all_iff by blast
  then obtain gs where gs: "sol = map format_slot gs" "groups_of ?s' gs"
    unfolding solution_ok_def by blast
  have g: "list_all (\<lambda>g. g \<noteq> [] \<and> g \<in> snd ` set (key_to_words ?s')) gs"
    using gs(2) unfolding groups_of_def by simp
  have w: "\<forall>g \<in> set gs. \<forall>w \<in> set g.
                 set w \<subseteq> set ?tl
                 \<and> w \<notin> (case exclude_words of None \<Rightarrow> {} | Some e \<Rightarrow> e)
                 \<and> (case shaw_to_pos s w of None \<Rightarrow> {} | Some tags \<Rightarrow> tags)
                      \<inter> (case exclude_pos of None \<Rightarrow> {} | Some e \<Rightarrow> e) = {}"
  proof (intro ballI)
    fix g w assume "g \<in> set gs" and wg: "w \<in> set g"
    then have "g \<in> snd ` set (key_to_words ?s')" using g unfolding list_all_iff by blast
    then have "w \<in> set (filtered_words s (set ?tl) exclude_words exclude_pos)"
      using wg by (rule group_words_filtered)
    then show "set w \<subseteq> set ?tl
                 \<and> w \<notin> (case exclude_words of None \<Rightarrow> {} | Some e \<Rightarrow> e)
                 \<and> (case shaw_to_pos s w of None \<Rightarrow> {} | Some tags \<Rightarrow> tags)
                      \<inter> (case exclude_pos of None \<Rightarrow> {} | Some e \<Rightarrow> e) = {}"
      by (rule filtered_word_kept)
  qed
  show ?thesis
    by (rule exI[of _ gs]) (intro conjI gs(1) g w)
qed

theorem solution_words_pass_filter_witness:
  "[ustr ''c'', ustr ''ab''] \<in> set (solve_pangram example_tagged (Some (ustr ''abc'')) None
        (Some {ustr ''cab''}) (Some {ustr ''v''}))
   \<and> (\<exists>gs. [ustr ''c'', ustr ''ab''] = map format_slot gs
         \<and> list_all (\<lambda>g. g \<noteq> [] \<and> g \<in> snd ` set (key_to_words
                 (build_trie example_tagged (set (ustr ''abc'')) (Some {ustr ''cab''}) (Some {ustr ''v''})))) gs
         \<and> (\<forall>g \<in> set gs. \<forall>w \<in> set g.
                 set w \<subseteq> set (ustr ''abc'') \<and> w \<notin> {ustr ''cab''}
                 \<and> (case shaw_to_pos example_tagged w of None \<Rightarrow> {} | Some tags \<Rightarrow> tags) \<inter> {ustr ''v''} = {}))"
proof -
  have m: "[ustr ''c'', ustr ''ab''] \<in> set (solve_pangram example_tagged (Some (ustr ''abc'')) None
        (Some {ustr ''cab''}) (Some {ustr ''v''}))"
    by code_simp
  from solution_words_pass_filter[OF m] m show ?thesis by simp
qed

text \<open>
  C6. For two words of the filtered pool, the keys that \<open>build_trie\<close> computes (the
  letters sorted by their position in \<open>letter_order\<close>) are equal exactly when the words
  have the same multiset of letters.
\<close>

theorem anagram_key_iff:
  assumes "w1 \<in> set (filtered_words s target_letters exclude_words exclude_pos)"
    and "w2 \<in> set (filtered_words s target_letters exclude_words exclude_pos)"
  shows "(word_key (letter_order (build_trie s target_letters exclude_words exclude_pos)) w1
            = word_key (letter_order (build_trie s target_letters exclude_words exclude_pos)) w2)
         = (mset w1 = mset w2)"
proof
  assume "word_key (letter_order (build_trie s target_letters exclude_words exclude_pos)) w1
            = word_key (letter_order (build_trie s target_letters exclude_words exclude_pos)) w2"
  then show "mset w1 = mset w2" by (metis word_key_mset)
next
  assume "mset w1 = mset w2"
  with filtered_word_letters[OF assms(1)] show
    "word_key (letter_order (build_trie s target_letters exclude_words exclude_pos)) w1
       = word_key (letter_order (build_trie s target_letters exclude_words exclude_pos)) w2"
    by (rule word_key_anagram)
qed

theorem anagram_key_iff_witness:
  "ustr ''ab'' \<in> set (filtered_words example_anagrams (set (ustr ''abc'')) None None)
   \<and> ustr ''ba'' \<in> set (filtered_words example_anagrams (set (ustr ''abc'')) None None)
   \<and> word_key (letter_order (build_trie example_anagrams (set (ustr ''abc'')) None None)) (ustr ''ab'')
       = word_key (letter_order (build_trie example_anagrams (set (ustr ''abc'')) None None)) (ustr ''ba'')"
proof -
  have 1: "ustr ''ab'' \<in> set (filtered_words example_anagrams (set (ustr ''abc'')) None None)"
    by code_simp
  have 2: "ustr ''ba'' \<in> set (filtered_words example_anagrams (set (ustr ''abc'')) None None)"
    by code_simp
  have 3: "mset (ustr ''ab'') = mset (ustr ''ba'')" by (simp add: ustr_def)
  from anagram_key_iff[OF 1 2] 1 2 3 show ?thesis by simp
qed

text \<open>
  C7. After \<open>build_trie\<close>, \<open>letter_order\<close> has no repeated letter, holds exactly the
  letters that occur in some filtered word, and is in ascending order of the number of
  occurrences of the letter in the filtered words, each occurrence counted (a doubled
  letter counts twice, and so does a word that the lexicon lists twice).
\<close>

theorem letter_order_is_rarity_order:
  "distinct (letter_order (build_trie s target_letters exclude_words exclude_pos))
   \<and> set (letter_order (build_trie s target_letters exclude_words exclude_pos))
       = set (concat (filtered_words s target_letters exclude_words exclude_pos))
   \<and> sorted (map (\<lambda>l. count_list (concat (filtered_words s target_letters exclude_words exclude_pos)) l)
               (letter_order (build_trie s target_letters exclude_words exclude_pos)))"
  by (simp only: letter_order_build make_letter_order_set make_letter_order_distinct
        make_letter_order_sorted simp_thms)

text \<open>
  C8. Every call of \<open>_search\<close>, \<open>_find_words_from_root\<close> and \<open>_search_trie\<close> returns
  with \<open>remaining\<close>, \<open>current_letters\<close> and \<open>current_words\<close> equal to their values at
  entry; so after the top-level \<open>_search\<close> the counter is the target counter again. The
  counts are never negative: the target counter has none, and at the entry of every call
  made during the search (reached from the top-level call through \<open>calls\<close>) all counts
  are non-negative. Between two calls \<open>remaining\<close> only takes values it has at the entry
  of a call: a decrement is followed at once by a call, a call returns the counter it was
  given, and the increment after it gives back the counter from before the decrement.
\<close>

theorem search_restores_state:
  "remaining (search s mx d fr) = remaining fr \<and> current_words (search s mx d fr) = current_words fr
   \<and> remaining (find_words_from_root s mx d fr) = remaining fr
   \<and> current_words (find_words_from_root s mx d fr) = current_words fr
   \<and> fst (search_trie s mx d node cl fr) = cl
   \<and> remaining (snd (search_trie s mx d node cl fr)) = remaining fr
   \<and> current_words (snd (search_trie s mx d node cl fr)) = current_words fr
   \<and> remaining (search s mx 0 (start_frame (Counter target_letters))) = Counter target_letters
   \<and> counts_nonneg (Counter target_letters)
   \<and> ((calls s mx)\<^sup>*\<^sup>* (Search 0 (start_frame (Counter target_letters))) c
        \<longrightarrow> counts_nonneg (remaining (call_frame c)))"
proof -
  have a: "frame_kept fr (search s mx d fr)" by (rule search_frame(1))
  have b: "frame_kept fr (find_words_from_root s mx d fr)" by (rule search_frame(2))
  have c: "fst (search_trie s mx d node cl fr) = cl \<and> frame_kept fr (snd (search_trie s mx d node cl fr))"
    by (rule search_frame(3))
  have e: "frame_kept (start_frame (Counter target_letters))
             (search s mx 0 (start_frame (Counter target_letters)))"
    by (rule search_frame(1))
  have f: "remaining (start_frame (Counter target_letters)) = Counter target_letters"
    by (simp add: start_frame_def)
  have g: "(calls s mx)\<^sup>*\<^sup>* (Search 0 (start_frame (Counter target_letters))) c
        \<longrightarrow> counts_nonneg (remaining (call_frame c))"
  proof
    assume r: "(calls s mx)\<^sup>*\<^sup>* (Search 0 (start_frame (Counter target_letters))) c"
    have "rem_inv (Counter target_letters) (remaining (call_frame (Search 0 (start_frame (Counter target_letters)))))"
      by (simp add: rem_inv_def f counts_nonneg_Counter)
    with r have "rem_inv (Counter target_letters) (remaining (call_frame c))"
      by (rule reach_rem_inv)
    then show "counts_nonneg (remaining (call_frame c))" by (simp add: rem_inv_def)
  qed
  show ?thesis
    using a b c e f g counts_nonneg_Counter[of target_letters] by (simp add: frame_kept_def)
qed

theorem search_restores_state_witness:
  "(calls example_ab None)\<^sup>*\<^sup>* (Search 0 (start_frame (Counter (ustr ''ab''))))
      (SearchTrie 0 (TrieNode [(97, TrieNode [] True (Some (ustr ''ba'')))] False None) (ustr ''b'')
         (take_letter 98 (start_frame (Counter (ustr ''ab'')))))
   \<and> counts_nonneg (remaining (take_letter 98 (start_frame (Counter (ustr ''ab'')))))"
proof -
  let ?F = "start_frame (Counter (ustr ''ab''))"
  let ?n = "TrieNode [(97, TrieNode [] True (Some (ustr ''ba'')))] False None"
  have 1: "calls example_ab None (Search 0 ?F) (FindWordsFromRoot 0 ?F)"
    by (rule search_find) code_simp+
  have r: "rarest_letter example_ab (remaining ?F) = Some 98" by code_simp
  have m: "map_of (children (trie example_ab)) 98 = Some ?n" by code_simp
  have u: "ustr ''b'' = [98]" by code_simp
  have 2: "calls example_ab None (FindWordsFromRoot 0 ?F) (SearchTrie 0 ?n (ustr ''b'') (take_letter 98 ?F))"
    unfolding u by (rule find_trie[OF r m])
  have reach: "(calls example_ab None)\<^sup>*\<^sup>* (Search 0 ?F) (SearchTrie 0 ?n (ustr ''b'') (take_letter 98 ?F))"
    using 1 2 by (meson rtranclp.rtrancl_into_rtrancl rtranclp.rtrancl_refl)
  with search_restores_state[of example_ab None 0 ?F ?n "[]" "ustr ''ab''"
        "SearchTrie 0 ?n (ustr ''b'') (take_letter 98 ?F)"]
  show ?thesis by simp
qed

text \<open>
  C9. With starter words given: when the starter letters (whitespace removed) are
  contained, with multiplicity, in the target letters, \<open>main\<close> does not exit and passes
  to the solver letters whose multiset is the target minus the starter letters, one for
  one (and this is the multiset of the counter that \<open>solve_pangram\<close> builds from them).
  Otherwise the loop meets a starter letter whose count is not positive and the program
  ends with \<open>sys.exit(1)\<close> before a solver call.
\<close>

theorem starter_words_subtraction:
  assumes "starter_words \<noteq> []"
  shows "(mset (strip_whitespace starter_words)
            \<subseteq># mset (case letters of None \<Rightarrow> default_letters | Some t \<Rightarrow> strip_whitespace t) \<longrightarrow>
          (\<exists>t'. main_target_letters letters (Some starter_words) = Inr (Some t')
             \<and> mset t' = mset (case letters of None \<Rightarrow> default_letters | Some t \<Rightarrow> strip_whitespace t)
                          - mset (strip_whitespace starter_words)
             \<and> counter_mset (Counter t') = mset t'))
       \<and> (\<not> mset (strip_whitespace starter_words)
            \<subseteq># mset (case letters of None \<Rightarrow> default_letters | Some t \<Rightarrow> strip_whitespace t) \<longrightarrow>
          main_target_letters letters (Some starter_words) = Inl (SystemExit 1))"
proof -
  let ?tl = "case letters of None \<Rightarrow> default_letters | Some t \<Rightarrow> strip_whitespace t"
  let ?S = "strip_whitespace starter_words"
  have tl: "(case (case letters of None \<Rightarrow> None
                   | Some t \<Rightarrow> if t \<noteq> [] then Some (strip_whitespace t) else Some t) of
              None \<Rightarrow> default_letters | Some t \<Rightarrow> t) = ?tl"
    by (cases letters) (auto simp: strip_whitespace_def)
  have m: "main_target_letters letters (Some starter_words) =
             (case remove_starters (Counter ?tl) ?S of
                Inl e \<Rightarrow> Inl e
              | Inr target_counter \<Rightarrow> Inr (Some (rebuild_letters target_counter)))"
    using assms by (simp add: main_target_letters_def Let_def tl)
  have d: "distinct (map fst (Counter ?tl))" by (rule Counter_distinct)
  have c: "counter_mset (Counter ?tl) = mset ?tl" by (rule counter_mset_Counter)
  show ?thesis
  proof (intro conjI impI)
    assume "mset ?S \<subseteq># mset ?tl"
    then obtain c' where c': "remove_starters (Counter ?tl) ?S = Inr c'"
      "counter_mset c' = mset ?tl - mset ?S"
      using remove_starters_ok[OF d, of ?S] c by auto
    show "\<exists>t'. main_target_letters letters (Some starter_words) = Inr (Some t')
             \<and> mset t' = mset ?tl - mset ?S \<and> counter_mset (Counter t') = mset t'"
      using m c' by (simp add: mset_rebuild_letters counter_mset_Counter)
  next
    assume "\<not> mset ?S \<subseteq># mset ?tl"
    then have "remove_starters (Counter ?tl) ?S = Inl (SystemExit 1)"
      using remove_starters_fails[OF d, of ?S] c by simp
    then show "main_target_letters letters (Some starter_words) = Inl (SystemExit 1)"
      using m by simp
  qed
qed

theorem starter_words_subtraction_witness:
  "ustr ''a b'' \<noteq> []
   \<and> mset (strip_whitespace (ustr ''a b'')) \<subseteq># mset (strip_whitespace (ustr ''abc''))
   \<and> main_target_letters (Some (ustr ''abc'')) (Some (ustr ''a b'')) = Inr (Some (ustr ''c''))
   \<and> mset (ustr ''c'') = mset (strip_whitespace (ustr ''abc'')) - mset (strip_whitespace (ustr ''a b''))
   \<and> \<not> mset (strip_whitespace (ustr ''aa'')) \<subseteq># mset (strip_whitespace (ustr ''abc''))
   \<and> main_target_letters (Some (ustr ''abc'')) (Some (ustr ''aa'')) = Inl (SystemExit 1)"
proof -
  have n1: "ustr ''a b'' \<noteq> []" and n2: "ustr ''aa'' \<noteq> []" by (simp_all add: ustr_def)
  have s1: "strip_whitespace (ustr ''a b'') = [97, 98]"
    by (simp add: strip_whitespace_def is_space_def ustr_def)
  have s2: "strip_whitespace (ustr ''abc'') = [97, 98, 99]"
    by (simp add: strip_whitespace_def is_space_def ustr_def)
  have s3: "strip_whitespace (ustr ''aa'') = [97, 97]"
    by (simp add: strip_whitespace_def is_space_def ustr_def)
  have u: "ustr ''abc'' = [97, 98, 99]" "ustr ''c'' = [99]" by (simp_all add: ustr_def)
  have t2: "strip_whitespace [97, 98, 99] = [97, 98, 99]"
    by (simp add: strip_whitespace_def is_space_def)
  have sub: "mset (strip_whitespace (ustr ''a b'')) \<subseteq># mset (strip_whitespace (ustr ''abc''))"
    unfolding s1 s2 by simp
  have nsub: "\<not> mset (strip_whitespace (ustr ''aa'')) \<subseteq># mset (strip_whitespace (ustr ''abc''))"
    unfolding s3 s2 by (simp add: insert_subset_eq_iff)
  have e: "main_target_letters (Some (ustr ''abc'')) (Some (ustr ''a b'')) = Inr (Some (ustr ''c''))"
    using n1 by (simp add: main_target_letters_def Let_def s1 t2 u Counter_def rebuild_letters_def)
  from starter_words_subtraction[OF n1, of "Some (ustr ''abc'')"] sub e
  have d: "mset (ustr ''c'') = mset (strip_whitespace (ustr ''abc'')) - mset (strip_whitespace (ustr ''a b''))"
    by simp
  from starter_words_subtraction[OF n2, of "Some (ustr ''abc'')"] nsub
  have f: "main_target_letters (Some (ustr ''abc'')) (Some (ustr ''aa'')) = Inl (SystemExit 1)"
    by simp
  show ?thesis using n1 sub e d nsub f by simp
qed

text \<open>
  C10. The same word can fill more than one slot of a solution: nothing in the search
  removes a word once it is chosen, only the letter counts in \<open>remaining\<close> limit the
  choice. With the one-word lexicon \<open>ab\<close> and the target letters \<open>abab\<close>, the solver
  returns the single solution \<open>ab ab\<close>.
\<close>

theorem solve_pangram_repeats_word:
  "solve_pangram (solver_of [word_entry ''ab'']) (Some (ustr ''abab'')) None None None
     = [[ustr ''ab'', ustr ''ab'']]"
  by code_simp

end
